theory Spec2Isabelle
  imports Main "HOL-Library.Word" "HOL-Library.Signed_Division" "HOL-Library.Multiset"
begin

section \<open>Data model of parallel\_vectorize.py\<close>

text \<open>
  The module generates, through llvm\_cbuilder, a thread dispatcher
  (\<open>ParallelUFunc.body\<close>) and a worker (\<open>UFuncCore.body\<close>). The embedding below is
  of the generated program: each builder statement is the machine operation it emits.

  \<open>C.intp\<close> and \<open>C.int\<close> values are modelled as \<open>int\<close>. For \<open>0 \<le> N\<close> and
  \<open>1 \<le> ThreadCount\<close> every value the program computes from them lies between \<open>-1\<close> and
  \<open>N + 1\<close>, so no operation wraps around as long as \<open>N + 1\<close> fits the machine word.
\<close>

text \<open>\<open>class WorkQueue(CStruct)\<close>: fields \<open>next\<close>, \<open>last\<close> (exclusive) and \<open>lock\<close>.\<close>

record WorkQueue =
  next_wq :: int
  last_wq :: int
  lock_wq :: int

text \<open>
  \<open>class Context(CStruct)\<close>: fields \<open>common\<close>, \<open>id\<close>, \<open>completed\<close>. Every context
  points to the one \<open>ContextCommon\<close> of the call, so the pointer is not a field here.
\<close>

record Context =
  id_ctx :: int
  completed :: int

text \<open>
  \<open>workqueues = self.array(WorkQueue, ThreadCount)\<close> and
  \<open>contexts = self.array(Context, ThreadCount)\<close> are stack arrays. They are modelled as
  stores from the array index to the cell: indices \<open>0 .. ThreadCount - 1\<close> are the array,
  any other index is the stack memory next to it. The stores a call starts from are
  parameters of the model: the builder allocates the arrays and writes nothing to them.
\<close>

type_synonym wq_store = "int \<Rightarrow> WorkQueue"
type_synonym ctx_store = "int \<Rightarrow> Context"

text \<open>\<open>self.unreachable()\<close>: "This shall kill the program".\<close>

datatype fatal = Unreachable

section \<open>The work-queue lock\<close>

text \<open>
  \<open>ptr.atomic_cmpxchg(old, new)\<close> on a cell holding \<open>cur\<close>: the value observed and the
  value the cell holds afterwards.
\<close>

definition atomic_cmpxchg :: "int \<Rightarrow> int \<Rightarrow> int \<Rightarrow> int \<times> int" where
  "atomic_cmpxchg cur old new = (cur, if cur = old then new else cur)"

text \<open>
  \<open>WorkQueue.Lock\<close>, one turn of its loop: the compare-and-exchange and the loop
  condition \<open>res != unlocked\<close> (\<open>True\<close>: go round again).
\<close>

definition Lock_attempt :: "WorkQueue \<Rightarrow> bool \<times> WorkQueue" where
  "Lock_attempt q =
     (let unlocked = 0; locked = 1;
          (res, v) = atomic_cmpxchg (lock_wq q) unlocked locked
      in (res \<noteq> unlocked, q\<lparr>lock_wq := v\<rparr>))"

text \<open>\<open>WorkQueue.Unlock\<close>.\<close>

definition Unlock :: "WorkQueue \<Rightarrow> fatal + WorkQueue" where
  "Unlock q =
     (let unlocked = 0; locked = 1;
          (res, v) = atomic_cmpxchg (lock_wq q) locked unlocked
      in if res \<noteq> locked then Inl Unreachable else Inr (q\<lparr>lock_wq := v\<rparr>))"

section \<open>The dispatcher: \<open>ParallelUFunc.body\<close>\<close>

text \<open>\<open>with self.for_range(n) as (loop, i)\<close>: the body for \<open>i = 0, 1, .., n - 1\<close>.\<close>

definition for_range :: "int \<Rightarrow> (int \<Rightarrow> 's \<Rightarrow> 's) \<Rightarrow> 's \<Rightarrow> 's" where
  "for_range n body s = fold body (map int [0..<nat n]) s"

text \<open>
  Lines 142 to 148: the chunk size and the number of workers to launch. The division is
  the signed machine division.
\<close>

definition chunk_plan :: "int \<Rightarrow> int \<Rightarrow> int \<times> int" where
  "chunk_plan N num_thread =
     (let ChunkSize = N sdiv num_thread
      in if ChunkSize = 0 then (1, N) else (ChunkSize, num_thread))"

definition populate_workqueues :: "wq_store \<Rightarrow> int \<Rightarrow> int \<Rightarrow> int \<Rightarrow> wq_store" where
  "populate_workqueues workqueues N ChunkSize num_thread =
     (let wqs = for_range num_thread
                  (\<lambda>i w. w(i := (w i)\<lparr>next_wq := i * ChunkSize,
                                       last_wq := (i + 1) * ChunkSize,
                                       lock_wq := 0\<rparr>)) workqueues
      in wqs(num_thread - 1 := (wqs (num_thread - 1))\<lparr>last_wq := N\<rparr>))"

definition populate_context :: "ctx_store \<Rightarrow> int \<Rightarrow> ctx_store" where
  "populate_context contexts num_thread =
     for_range num_thread
       (\<lambda>i c. c(i := (c i)\<lparr>id_ctx := i, completed := 0\<rparr>)) contexts"

text \<open>
  \<open>ParallelUFuncPosixMixin._dispatch_worker\<close>: the indices of the contexts for which
  \<open>pthread_create\<close> is called, in order.
\<close>

definition dispatch_worker :: "int \<Rightarrow> int list" where
  "dispatch_worker num_thread = for_range num_thread (\<lambda>i ts. ts @ [i]) []"

text \<open>
  Lines 161 to 174, the check after the join. The loop \<open>for t in range(ThreadCount)\<close>
  runs in the generator, over the compiled thread count.
\<close>

definition total_completed :: "int \<Rightarrow> ctx_store \<Rightarrow> int" where
  "total_completed ThreadCount contexts =
     fold (\<lambda>t total. total + completed (contexts t)) (map int [0..<nat ThreadCount]) 0"

definition race_check :: "int \<Rightarrow> ctx_store \<Rightarrow> int \<Rightarrow> fatal + unit" where
  "race_check ThreadCount contexts N =
     (if total_completed ThreadCount contexts = N then Inr () else Inl Unreachable)"

section \<open>The kernel invoker: \<open>UFuncCoreGeneric._do_work\<close>\<close>

text \<open>
  Addresses are machine words. Memory is read and written one typed element at a time:
  a store from the address of an element to its value. \<open>common.args\<close> and
  \<open>common.steps\<close> are C arrays, read by index.
\<close>

definition get_offset :: "'a::len word \<Rightarrow> 'a word \<Rightarrow> 'a word \<Rightarrow> 'a word" where
  "get_offset B S item_v = B + item_v * S"

definition do_work ::
  "(nat \<Rightarrow> 'a::len word) \<Rightarrow> (nat \<Rightarrow> 'a word) \<Rightarrow> ('v list \<Rightarrow> 'v) \<Rightarrow> 'ty list
     \<Rightarrow> 'a word \<Rightarrow> ('a word \<Rightarrow> 'v) \<Rightarrow> ('a word \<Rightarrow> 'v)" where
  "do_work args steps ufunc_ptr ARGTYS item_v mem =
     (let indata = map (\<lambda>(i, argty). mem (get_offset (args i) (steps i) item_v))
                       (enumerate 0 ARGTYS);
          out_index = length ARGTYS;
          outptr = get_offset (args out_index) (steps out_index) item_v;
          res = ufunc_ptr indata
      in mem(outptr := res))"

section \<open>The worker: \<open>UFuncCore.body\<close>\<close>

text \<open>
  Workers run in parallel on the shared \<open>workqueues\<close> array, so the worker is a
  transition system: one control point per statement of the source, and one statement of
  one thread per step. Nothing is assumed about which thread runs next.

  \<open>_do_workqueue\<close>:
  \<^item> \<open>Drain_lock\<close>: \<open>workqueue.Lock()\<close>, one turn of the spin loop;
  \<^item> \<open>Drain_item\<close>: \<open>item = self.var_copy(workqueue.next)\<close>;
  \<^item> \<open>Drain_incr\<close>: \<open>workqueue.next += self.constant(item.type, 1)\<close>;
  \<^item> \<open>Drain_last\<close>: \<open>last = self.var_copy(workqueue.last)\<close>;
  \<^item> \<open>Drain_unlock\<close>: \<open>workqueue.Unlock()\<close>;
  \<^item> \<open>Drain_test\<close>: \<open>if item >= last: break\<close>;
  \<^item> \<open>Drain_work\<close>: \<open>self._do_work(common, item, tid)\<close>;
  \<^item> \<open>Drain_count\<close>: \<open>completed += 1\<close>.

  \<open>_do_work_stealing\<close>, \<open>_do_work_stealing_innerloop\<close>, \<open>_do_work_stealing_check\<close>:
  \<^item> \<open>Steal_begin\<close>: \<open>steal_continue = self.var(C.int, 1)\<close>;
  \<^item> \<open>Steal_cond\<close>: the loop condition \<open>steal_continue != STEAL_STOP\<close>, then
    \<open>steal_continue.assign(STEAL_STOP)\<close> and the start of \<open>for_range(common.num_thread)\<close>;
  \<^item> \<open>Inner_cond\<close>: the bound of the \<open>for_range\<close> and \<open>if i != tid\<close>;
  \<^item> \<open>Steal_lock\<close>: \<open>otherqueue.Lock()\<close>, one turn of the spin loop;
  \<^item> \<open>Steal_test\<close>: \<open>if otherqueue.next < otherqueue.last\<close>;
  \<^item> \<open>Steal_decr\<close>: \<open>otherqueue.last -= ONE\<close>;
  \<^item> \<open>Steal_item\<close>: \<open>item = self.var_copy(otherqueue.last)\<close>;
  \<^item> \<open>Steal_unlock_hit\<close>, \<open>Steal_unlock_miss\<close>: the \<open>otherqueue.Unlock()\<close> of each branch;
  \<^item> \<open>Steal_work\<close>: \<open>self._do_work(common, item, tid)\<close>;
  \<^item> \<open>Steal_count\<close>: \<open>completed += 1\<close>;
  \<^item> \<open>Steal_mark\<close>: \<open>steal_continue.assign(STEAL_CONTINUE)\<close>;
  \<^item> \<open>Inner_next\<close>: the increment of the \<open>for_range\<close>;
  \<^item> \<open>Done\<close>: \<open>self.ret()\<close>; \<open>Dead\<close>: \<open>unreachable()\<close> was executed.
\<close>

datatype label =
    Drain_lock | Drain_item | Drain_incr | Drain_last | Drain_unlock | Drain_test
  | Drain_work | Drain_count
  | Steal_begin | Steal_cond | Inner_cond | Steal_lock | Steal_test | Steal_decr | Steal_item
  | Steal_unlock_hit | Steal_work | Steal_count | Steal_mark
  | Steal_unlock_miss | Inner_next | Done | Dead

text \<open>The local variables of one worker.\<close>

record local =
  pc :: label
  item_l :: int
  last_l :: int
  steal_continue :: int
  i_l :: int

text \<open>
  The state of a dispatch call while its workers run. \<open>calls\<close> lists the calls
  \<open>_do_work(common, item, tid)\<close> made so far as pairs \<open>(tid, item)\<close>. \<open>holder\<close> is an
  auxiliary variable that no statement reads: the thread whose \<open>Lock\<close> on a queue
  succeeded and whose \<open>Unlock\<close> has not yet run.
\<close>

record sys =
  workqueues :: wq_store
  contexts :: ctx_store
  locals :: "int \<Rightarrow> local"
  calls :: "(int \<times> int) list"
  holder :: "int \<Rightarrow> int option"

definition goto :: "int \<Rightarrow> local \<Rightarrow> sys \<Rightarrow> sys" where
  "goto tid l s = s\<lparr>locals := (locals s)(tid := l)\<rparr>"

definition sys_Lock :: "int \<Rightarrow> int \<Rightarrow> label \<Rightarrow> sys \<Rightarrow> sys" where
  "sys_Lock tid q after s =
     (case Lock_attempt (workqueues s q) of
        (again, wq) \<Rightarrow>
          if again then s\<lparr>workqueues := (workqueues s)(q := wq)\<rparr>
          else goto tid ((locals s tid)\<lparr>pc := after\<rparr>)
                 (s\<lparr>workqueues := (workqueues s)(q := wq),
                    holder := (holder s)(q := Some tid)\<rparr>))"

definition sys_Unlock :: "int \<Rightarrow> int \<Rightarrow> label \<Rightarrow> sys \<Rightarrow> sys" where
  "sys_Unlock tid q after s =
     (case Unlock (workqueues s q) of
        Inl Unreachable \<Rightarrow> goto tid ((locals s tid)\<lparr>pc := Dead\<rparr>) s
      | Inr wq \<Rightarrow>
          goto tid ((locals s tid)\<lparr>pc := after\<rparr>)
            (s\<lparr>workqueues := (workqueues s)(q := wq),
               holder := (holder s)(q := None)\<rparr>))"

definition sys_do_work :: "int \<Rightarrow> int \<Rightarrow> sys \<Rightarrow> sys" where
  "sys_do_work tid item_v s = s\<lparr>calls := calls s @ [(tid, item_v)]\<rparr>"

definition sys_count :: "int \<Rightarrow> sys \<Rightarrow> sys" where
  "sys_count tid s =
     s\<lparr>contexts := (contexts s)(tid := (contexts s tid)
          \<lparr>completed := completed (contexts s tid) + 1\<rparr>)\<rparr>"

text \<open>
  One step of the worker whose context is \<open>contexts[tid]\<close> (its \<open>context.id\<close> is
  \<open>tid\<close>, see \<open>populate_context\<close>); \<open>num_thread\<close> is \<open>common.num_thread\<close>.
  \<open>None\<close>: the worker has returned or is dead.
\<close>

definition worker_step :: "int \<Rightarrow> int \<Rightarrow> sys \<Rightarrow> sys option" where
  "worker_step num_thread tid s =
     (let l = locals s tid; workqueue = workqueues s tid; otherqueue = workqueues s (i_l l) in
      case pc l of
        Drain_lock \<Rightarrow> Some (sys_Lock tid tid Drain_item s)
      | Drain_item \<Rightarrow> Some (goto tid (l\<lparr>pc := Drain_incr, item_l := next_wq workqueue\<rparr>) s)
      | Drain_incr \<Rightarrow>
          Some (goto tid (l\<lparr>pc := Drain_last\<rparr>)
                  (s\<lparr>workqueues := (workqueues s)
                       (tid := workqueue\<lparr>next_wq := next_wq workqueue + 1\<rparr>)\<rparr>))
      | Drain_last \<Rightarrow> Some (goto tid (l\<lparr>pc := Drain_unlock, last_l := last_wq workqueue\<rparr>) s)
      | Drain_unlock \<Rightarrow> Some (sys_Unlock tid tid Drain_test s)
      | Drain_test \<Rightarrow>
          Some (if item_l l \<ge> last_l l then goto tid (l\<lparr>pc := Steal_begin\<rparr>) s
                else goto tid (l\<lparr>pc := Drain_work\<rparr>) s)
      | Drain_work \<Rightarrow> Some (goto tid (l\<lparr>pc := Drain_count\<rparr>) (sys_do_work tid (item_l l) s))
      | Drain_count \<Rightarrow> Some (goto tid (l\<lparr>pc := Drain_lock\<rparr>) (sys_count tid s))
      | Steal_begin \<Rightarrow> Some (goto tid (l\<lparr>pc := Steal_cond, steal_continue := 1\<rparr>) s)
      | Steal_cond \<Rightarrow>
          Some (if steal_continue l \<noteq> 0
                then goto tid (l\<lparr>pc := Inner_cond, steal_continue := 0, i_l := 0\<rparr>) s
                else goto tid (l\<lparr>pc := Done\<rparr>) s)
      | Inner_cond \<Rightarrow>
          Some (if i_l l < num_thread
                then (if i_l l \<noteq> tid then goto tid (l\<lparr>pc := Steal_lock\<rparr>) s
                      else goto tid (l\<lparr>pc := Inner_next\<rparr>) s)
                else goto tid (l\<lparr>pc := Steal_cond\<rparr>) s)
      | Steal_lock \<Rightarrow> Some (sys_Lock tid (i_l l) Steal_test s)
      | Steal_test \<Rightarrow>
          Some (if next_wq otherqueue < last_wq otherqueue
                then goto tid (l\<lparr>pc := Steal_decr\<rparr>) s
                else goto tid (l\<lparr>pc := Steal_unlock_miss\<rparr>) s)
      | Steal_decr \<Rightarrow>
          Some (goto tid (l\<lparr>pc := Steal_item\<rparr>)
                  (s\<lparr>workqueues := (workqueues s)
                       (i_l l := otherqueue\<lparr>last_wq := last_wq otherqueue - 1\<rparr>)\<rparr>))
      | Steal_item \<Rightarrow>
          Some (goto tid (l\<lparr>pc := Steal_unlock_hit, item_l := last_wq otherqueue\<rparr>) s)
      | Steal_unlock_hit \<Rightarrow> Some (sys_Unlock tid (i_l l) Steal_work s)
      | Steal_work \<Rightarrow> Some (goto tid (l\<lparr>pc := Steal_count\<rparr>) (sys_do_work tid (item_l l) s))
      | Steal_count \<Rightarrow> Some (goto tid (l\<lparr>pc := Steal_mark\<rparr>) (sys_count tid s))
      | Steal_mark \<Rightarrow> Some (goto tid (l\<lparr>pc := Inner_next, steal_continue := 1\<rparr>) s)
      | Steal_unlock_miss \<Rightarrow> Some (sys_Unlock tid (i_l l) Inner_next s)
      | Inner_next \<Rightarrow> Some (goto tid (l\<lparr>pc := Inner_cond, i_l := i_l l + 1\<rparr>) s)
      | Done \<Rightarrow> None
      | Dead \<Rightarrow> None)"

text \<open>
  The threads of a call: one step of the whole is one step of one of the \<open>nt\<close>
  workers that \<open>_dispatch_worker\<close> created, in any order.
\<close>

definition sys_step :: "int \<Rightarrow> int \<Rightarrow> sys \<Rightarrow> sys \<Rightarrow> bool" where
  "sys_step cnt nt s s' \<longleftrightarrow> (\<exists>tid. 0 \<le> tid \<and> tid < nt \<and> worker_step cnt tid s = Some s')"

inductive reachable :: "int \<Rightarrow> int \<Rightarrow> sys \<Rightarrow> sys \<Rightarrow> bool" for cnt nt s0 where
  start: "reachable cnt nt s0 s0"
| step: "reachable cnt nt s0 s \<Longrightarrow> sys_step cnt nt s s' \<Longrightarrow> reachable cnt nt s0 s'"

text \<open>A schedule names the thread that takes each step.\<close>

fun run_schedule :: "int \<Rightarrow> int list \<Rightarrow> sys \<Rightarrow> sys" where
  "run_schedule cnt [] s = s"
| "run_schedule cnt (tid # sched) s =
     (case worker_step cnt tid s of
        Some s' \<Rightarrow> run_schedule cnt sched s'
      | None \<Rightarrow> run_schedule cnt sched s)"

text \<open>\<open>pthread_join\<close> of every created thread has returned.\<close>

definition joined :: "int \<Rightarrow> sys \<Rightarrow> bool" where
  "joined nt s \<longleftrightarrow> list_all (\<lambda>tid. pc (locals s tid) = Done) (dispatch_worker nt)"

text \<open>
  \<open>ParallelUFunc.body\<close> up to the launch of the workers. \<open>common.num_thread\<close> is
  assigned on line 134, from the compiled \<open>ThreadCount\<close>; the variable \<open>num_thread\<close> is
  reassigned on line 148.
\<close>

definition local0 :: local where
  "local0 = \<lparr>pc = Drain_lock, item_l = 0, last_l = 0, steal_continue = 0, i_l = 0\<rparr>"

record launch =
  common_num_thread :: int
  workers :: int
  begin_sys :: sys

definition body_launch :: "int \<Rightarrow> int \<Rightarrow> wq_store \<Rightarrow> ctx_store \<Rightarrow> launch" where
  "body_launch N ThreadCount workqueues0 contexts0 =
     (let num_thread = ThreadCount;
          common_num = num_thread;
          (ChunkSize, num_thread) = chunk_plan N num_thread;
          wqs = populate_workqueues workqueues0 N ChunkSize num_thread;
          ctxs = populate_context contexts0 num_thread
      in \<lparr>common_num_thread = common_num, workers = num_thread,
          begin_sys = \<lparr>workqueues = wqs, contexts = ctxs, locals = (\<lambda>_. local0),
                        calls = [], holder = (\<lambda>_. None)\<rparr>\<rparr>)"

text \<open>
  \<open>running N ThreadCount workqueues0 contexts0 s\<close>: the workers of the call can be in
  state \<open>s\<close>. \<open>run_call\<close> is the state after the schedule \<open>sched\<close>.
\<close>

definition running :: "int \<Rightarrow> int \<Rightarrow> wq_store \<Rightarrow> ctx_store \<Rightarrow> sys \<Rightarrow> bool" where
  "running N ThreadCount workqueues0 contexts0 s \<longleftrightarrow>
     (let L = body_launch N ThreadCount workqueues0 contexts0
      in reachable (common_num_thread L) (workers L) (begin_sys L) s)"

definition run_call :: "int \<Rightarrow> int \<Rightarrow> wq_store \<Rightarrow> ctx_store \<Rightarrow> int list \<Rightarrow> sys" where
  "run_call N ThreadCount workqueues0 contexts0 sched =
     (let L = body_launch N ThreadCount workqueues0 contexts0
      in run_schedule (common_num_thread L) sched (begin_sys L))"

text \<open>
  The whole call: \<open>body N ThreadCount workqueues0 contexts0 s r\<close> holds when the workers
  can reach \<open>s\<close> with every thread joined and the check after the join gives \<open>r\<close>.
\<close>

definition body :: "int \<Rightarrow> int \<Rightarrow> wq_store \<Rightarrow> ctx_store \<Rightarrow> sys \<Rightarrow> fatal + unit \<Rightarrow> bool" where
  "body N ThreadCount workqueues0 contexts0 s r \<longleftrightarrow>
     running N ThreadCount workqueues0 contexts0 s \<and>
     joined (workers (body_launch N ThreadCount workqueues0 contexts0)) s \<and>
     r = race_check ThreadCount (contexts s) N"

text \<open>
  The steps of \<open>worker_step\<close> that write nothing but the worker's own local variables,
  as a relation between the locals before and after; \<open>wq\<close> is the worker's own queue and
  \<open>oq\<close> the queue \<open>workqueues[i]\<close>, which four of the steps read.
\<close>

definition local_move :: "int \<Rightarrow> int \<Rightarrow> WorkQueue \<Rightarrow> WorkQueue \<Rightarrow> local \<Rightarrow> local \<Rightarrow> bool" where
  "local_move cnt tid wq oq l l' \<longleftrightarrow>
       pc l = Drain_item \<and> l' = l\<lparr>pc := Drain_incr, item_l := next_wq wq\<rparr> \<or>
       pc l = Drain_last \<and> l' = l\<lparr>pc := Drain_unlock, last_l := last_wq wq\<rparr> \<or>
       pc l = Drain_test \<and> item_l l \<ge> last_l l \<and> l' = l\<lparr>pc := Steal_begin\<rparr> \<or>
       pc l = Drain_test \<and> \<not> item_l l \<ge> last_l l \<and> l' = l\<lparr>pc := Drain_work\<rparr> \<or>
       pc l = Steal_begin \<and> l' = l\<lparr>pc := Steal_cond, steal_continue := 1\<rparr> \<or>
       pc l = Steal_cond \<and> steal_continue l \<noteq> 0 \<and>
         l' = l\<lparr>pc := Inner_cond, steal_continue := 0, i_l := 0\<rparr> \<or>
       pc l = Steal_cond \<and> steal_continue l = 0 \<and> l' = l\<lparr>pc := Done\<rparr> \<or>
       pc l = Inner_cond \<and> i_l l < cnt \<and> i_l l \<noteq> tid \<and> l' = l\<lparr>pc := Steal_lock\<rparr> \<or>
       pc l = Inner_cond \<and> i_l l < cnt \<and> i_l l = tid \<and> l' = l\<lparr>pc := Inner_next\<rparr> \<or>
       pc l = Inner_cond \<and> \<not> i_l l < cnt \<and> l' = l\<lparr>pc := Steal_cond\<rparr> \<or>
       pc l = Steal_test \<and> next_wq oq < last_wq oq \<and> l' = l\<lparr>pc := Steal_decr\<rparr> \<or>
       pc l = Steal_test \<and> \<not> next_wq oq < last_wq oq \<and> l' = l\<lparr>pc := Steal_unlock_miss\<rparr> \<or>
       pc l = Steal_item \<and> l' = l\<lparr>pc := Steal_unlock_hit, item_l := last_wq oq\<rparr> \<or>
       pc l = Steal_mark \<and> l' = l\<lparr>pc := Inner_next, steal_continue := 1\<rparr> \<or>
       pc l = Inner_next \<and> l' = l\<lparr>pc := Inner_cond, i_l := i_l l + 1\<rparr>"

section \<open>Invariants of the running workers\<close>

text \<open>
  \<open>in_cs l tid q\<close>: the worker \<open>tid\<close> with locals \<open>l\<close> is between a \<open>Lock\<close> and
  the matching \<open>Unlock\<close> of queue \<open>q\<close>.
\<close>

definition in_cs :: "local \<Rightarrow> int \<Rightarrow> int \<Rightarrow> bool" where
  "in_cs l tid q \<longleftrightarrow>
     (pc l \<in> {Drain_item, Drain_incr, Drain_last, Drain_unlock} \<and> q = tid) \<or>
     (pc l \<in> {Steal_test, Steal_decr, Steal_item, Steal_unlock_hit, Steal_unlock_miss} \<and>
      q = i_l l)"

definition lock_inv :: "sys \<Rightarrow> bool" where
  "lock_inv s \<longleftrightarrow>
     (\<forall>q tid. holder s q = Some tid \<longleftrightarrow> in_cs (locals s tid) tid q) \<and>
     (\<forall>q tid. holder s q = Some tid \<longrightarrow> lock_wq (workqueues s q) = 1) \<and>
     (\<forall>tid. pc (locals s tid) \<noteq> Dead)"

text \<open>
  What the owner of a queue knows about it at each control point (\<open>nx\<close> and \<open>la\<close> are the
  queue's \<open>next\<close> and \<open>last\<close>), and what a worker that is stealing from it knows.
\<close>

definition owner_ok :: "local \<Rightarrow> int \<Rightarrow> int \<Rightarrow> bool" where
  "owner_ok l nx la \<longleftrightarrow>
     (case pc l of
        Drain_lock \<Rightarrow> nx \<le> la
      | Drain_item \<Rightarrow> nx \<le> la
      | Drain_incr \<Rightarrow> item_l l = nx \<and> nx \<le> la
      | Drain_last \<Rightarrow> item_l l = nx - 1
      | Drain_unlock \<Rightarrow> item_l l = nx - 1 \<and> last_l l = la
      | Drain_test \<Rightarrow> (item_l l < last_l l \<longrightarrow> nx \<le> la) \<and> (last_l l \<le> item_l l \<longrightarrow> la < nx)
      | Drain_work \<Rightarrow> nx \<le> la
      | Drain_count \<Rightarrow> nx \<le> la
      | Dead \<Rightarrow> True
      | _ \<Rightarrow> la < nx)"

definition thief_ok :: "local \<Rightarrow> int \<Rightarrow> int \<Rightarrow> bool" where
  "thief_ok l nx la \<longleftrightarrow>
     (case pc l of Steal_decr \<Rightarrow> nx < la | Steal_item \<Rightarrow> nx \<le> la | _ \<Rightarrow> True)"

text \<open>
  The invariant of queue \<open>q\<close> in state \<open>s\<close> of a run that started in \<open>s0\<close>; its owner is
  the worker \<open>q\<close>.
\<close>

definition queue_inv :: "sys \<Rightarrow> sys \<Rightarrow> int \<Rightarrow> bool" where
  "queue_inv s0 s q \<longleftrightarrow>
     next_wq (workqueues s0 q) \<le> next_wq (workqueues s q) \<and>
     next_wq (workqueues s q) \<le> last_wq (workqueues s q) + 1 \<and>
     next_wq (workqueues s0 q) \<le> last_wq (workqueues s q) \<and>
     last_wq (workqueues s q) \<le> last_wq (workqueues s0 q) \<and>
     owner_ok (locals s q) (next_wq (workqueues s q)) (last_wq (workqueues s q)) \<and>
     (\<forall>t. i_l (locals s t) = q \<longrightarrow>
          thief_ok (locals s t) (next_wq (workqueues s q)) (last_wq (workqueues s q)))"

text \<open>
  A worker running alone for \<open>k\<close> steps; the peers a sweep visits from index \<open>j\<close> on
  (\<open>for_range(common.num_thread)\<close> with \<open>if i != tid\<close>); a queue that has work to steal.
\<close>

definition solo :: "int \<Rightarrow> int \<Rightarrow> nat \<Rightarrow> sys \<Rightarrow> sys" where
  "solo cnt tid k s = run_schedule cnt (replicate k tid) s"

definition peers_from :: "int \<Rightarrow> int \<Rightarrow> int \<Rightarrow> int list" where
  "peers_from j cnt tid = filter (\<lambda>q. q \<noteq> tid) (map int [nat j..<nat cnt])"

definition has_work :: "sys \<Rightarrow> int \<Rightarrow> bool" where
  "has_work s q \<longleftrightarrow> next_wq (workqueues s q) < last_wq (workqueues s q)"

text \<open>
  \<open>swept s tid sc rest s'\<close>: from \<open>s\<close>, the worker \<open>tid\<close> has finished a sweep in \<open>s'\<close> and
  has claimed on it the tail index of each queue in \<open>rest\<close>, in that order, and nothing
  else; \<open>sc\<close> is the value \<open>steal_continue\<close> had when the sweep began.
\<close>

definition swept :: "sys \<Rightarrow> int \<Rightarrow> int \<Rightarrow> int list \<Rightarrow> sys \<Rightarrow> bool" where
  "swept s tid sc rest s' \<longleftrightarrow>
     pc (locals s' tid) = Steal_cond \<and>
     calls s' = calls s @ map (\<lambda>q. (tid, last_wq (workqueues s q) - 1)) rest \<and>
     (\<forall>q. workqueues s' q =
            (if q \<in> set rest then (workqueues s q)\<lparr>last_wq := last_wq (workqueues s q) - 1\<rparr>
             else workqueues s q)) \<and>
     completed (contexts s' tid) = completed (contexts s tid) + int (length rest) \<and>
     steal_continue (locals s' tid) = (if rest = [] then sc else 1)"

text \<open>The work left in the queues of the peers of \<open>tid\<close>.\<close>

definition peer_work :: "sys \<Rightarrow> int \<Rightarrow> int \<Rightarrow> nat" where
  "peer_work s cnt tid =
     sum_list (map (\<lambda>q. nat (last_wq (workqueues s q) - next_wq (workqueues s q)))
                   (peers_from 0 cnt tid))"

section \<open>Accounting for the indices\<close>

text \<open>
  The indices a queue still holds, and the index a worker has taken out of a queue and
  not yet passed to the kernel: a worker takes an index with \<open>workqueue.next += 1\<close> (if
  the queue was not empty) or with \<open>otherqueue.last -= ONE\<close>; \<open>la_own\<close> and \<open>la_other\<close> are
  the \<open>last\<close> fields of its own queue and of the queue it is stealing from.
\<close>

definition remaining :: "WorkQueue \<Rightarrow> int multiset" where
  "remaining wq = mset_set {next_wq wq..<last_wq wq}"

definition inflight :: "local \<Rightarrow> int \<Rightarrow> int \<Rightarrow> int multiset" where
  "inflight l la_own la_other =
     (case pc l of
        Drain_last \<Rightarrow> (if item_l l < la_own then {#item_l l#} else {#})
      | Drain_unlock \<Rightarrow> (if item_l l < last_l l then {#item_l l#} else {#})
      | Drain_test \<Rightarrow> (if item_l l < last_l l then {#item_l l#} else {#})
      | Drain_work \<Rightarrow> {#item_l l#}
      | Steal_item \<Rightarrow> {#la_other#}
      | Steal_unlock_hit \<Rightarrow> {#item_l l#}
      | Steal_work \<Rightarrow> {#item_l l#}
      | _ \<Rightarrow> {#})"

definition claimed :: "sys \<Rightarrow> int \<Rightarrow> int multiset" where
  "claimed s t =
     inflight (locals s t) (last_wq (workqueues s t))
       (last_wq (workqueues s (i_l (locals s t))))"

definition accounted :: "int \<Rightarrow> sys \<Rightarrow> int multiset" where
  "accounted n s =
     mset (map snd (calls s)) + (\<Sum>q \<in> {0..<n}. remaining (workqueues s q)) +
     (\<Sum>t \<in> {0..<n}. claimed s t)"

text \<open>The loop index of a sweep is within the \<open>for_range\<close> where a queue is accessed.\<close>

definition idx_ok :: "int \<Rightarrow> local \<Rightarrow> bool" where
  "idx_ok cnt l \<longleftrightarrow>
     (case pc l of
        Inner_cond \<Rightarrow> 0 \<le> i_l l
      | Inner_next \<Rightarrow> 0 \<le> i_l l
      | Steal_lock \<Rightarrow> 0 \<le> i_l l \<and> i_l l < cnt
      | Steal_test \<Rightarrow> 0 \<le> i_l l \<and> i_l l < cnt
      | Steal_decr \<Rightarrow> 0 \<le> i_l l \<and> i_l l < cnt
      | Steal_item \<Rightarrow> 0 \<le> i_l l \<and> i_l l < cnt
      | Steal_unlock_hit \<Rightarrow> 0 \<le> i_l l \<and> i_l l < cnt
      | Steal_work \<Rightarrow> 0 \<le> i_l l \<and> i_l l < cnt
      | Steal_count \<Rightarrow> 0 \<le> i_l l \<and> i_l l < cnt
      | Steal_mark \<Rightarrow> 0 \<le> i_l l \<and> i_l l < cnt
      | Steal_unlock_miss \<Rightarrow> 0 \<le> i_l l \<and> i_l l < cnt
      | _ \<Rightarrow> True)"

text \<open>
  The \<open>completed\<close> counter of a worker counts its kernel calls; between the call and
  \<open>completed += 1\<close> it is one behind.
\<close>

definition count_ok :: "sys \<Rightarrow> int \<Rightarrow> bool" where
  "count_ok s t \<longleftrightarrow>
     completed (contexts s t) +
       (if pc (locals s t) = Drain_count \<or> pc (locals s t) = Steal_count then 1 else 0) =
     int (length (filter (\<lambda>c. fst c = t) (calls s)))"

section \<open>Memory contents for examples\<close>

text \<open>
  Stack memory in which every cell of the \<open>workqueues\<close> array, or of the \<open>contexts\<close>
  array, and every cell around it holds the same values.
\<close>

definition const_wq :: "int \<Rightarrow> int \<Rightarrow> int \<Rightarrow> wq_store" where
  "const_wq a b c = (\<lambda>_. \<lparr>next_wq = a, last_wq = b, lock_wq = c\<rparr>)"

definition const_ctx :: "int \<Rightarrow> int \<Rightarrow> ctx_store" where
  "const_ctx a b = (\<lambda>_. \<lparr>id_ctx = a, completed = b\<rparr>)"

section \<open>Chunk planning\<close>

lemma for_range_Suc:
  "for_range (1 + int n) f s = f (int n) (for_range (int n) f s)"
  by (simp add: for_range_def nat_add_distrib)

lemma for_range_0: "n \<le> 0 \<Longrightarrow> for_range n f s = s"
  by (simp add: for_range_def)

lemma for_range_upd_nat:
  "for_range (int n) (\<lambda>i w. w(i := g i (w i))) w0 j =
     (if 0 \<le> j \<and> j < int n then g j (w0 j) else w0 j)"
proof (induction n arbitrary: j)
  case 0
  show ?case by (auto simp: for_range_0)
next
  case (Suc n)
  have "for_range (int (Suc n)) (\<lambda>i w. w(i := g i (w i))) w0 j =
        (if j = int n then g (int n) (for_range (int n) (\<lambda>i w. w(i := g i (w i))) w0 (int n))
         else for_range (int n) (\<lambda>i w. w(i := g i (w i))) w0 j)"
    by (simp add: for_range_Suc)
  also have "\<dots> = (if 0 \<le> j \<and> j < int (Suc n) then g j (w0 j) else w0 j)"
    unfolding Suc.IH by auto
  finally show ?case .
qed

lemma for_range_upd:
  "for_range n (\<lambda>i w. w(i := g i (w i))) w0 j =
     (if 0 \<le> j \<and> j < n then g j (w0 j) else w0 j)"
proof (cases "0 \<le> n")
  case True
  then have "n = int (nat n)" by simp
  then show ?thesis using for_range_upd_nat [of "nat n" g w0 j] by simp
next
  case False
  then show ?thesis by (auto simp: for_range_0)
qed

lemma populate_workqueues_apply:
  "populate_workqueues w N c n j =
     (if j = n - 1 then
        (if 0 \<le> j then (w j)\<lparr>next_wq := j * c, last_wq := N, lock_wq := 0\<rparr>
         else (w j)\<lparr>last_wq := N\<rparr>)
      else if 0 \<le> j \<and> j < n then
        (w j)\<lparr>next_wq := j * c, last_wq := (j + 1) * c, lock_wq := 0\<rparr>
      else w j)"
  by (simp add: populate_workqueues_def Let_def
        for_range_upd [where g = "\<lambda>i x. x\<lparr>next_wq := i * c, last_wq := (i + 1) * c, lock_wq := 0\<rparr>"])

lemma populate_context_apply:
  "populate_context c n j =
     (if 0 \<le> j \<and> j < n then (c j)\<lparr>id_ctx := j, completed := 0\<rparr> else c j)"
  by (simp add: populate_context_def
        for_range_upd [where g = "\<lambda>i x. x\<lparr>id_ctx := i, completed := 0\<rparr>"])

lemma dispatch_worker_eq: "dispatch_worker n = map int [0..<nat n]"
proof -
  have "for_range (int k) (\<lambda>i ts. ts @ [i]) [] = map int [0..<k]" for k
    by (induction k) (simp_all add: for_range_0 for_range_Suc)
  from this [of "nat n"] show ?thesis
    by (cases "0 \<le> n") (simp_all add: dispatch_worker_def for_range_0)
qed

lemma sdiv_nonneg: "0 \<le> N \<Longrightarrow> 0 < T \<Longrightarrow> N sdiv T = N div (T::int)"
  by (simp add: signed_divide_int_def sgn_if)

lemma chunk_plan_even: "1 \<le> T \<Longrightarrow> T \<le> N \<Longrightarrow> chunk_plan N T = (N div T, T)"
proof -
  assume T: "1 \<le> T" and N: "T \<le> N"
  then have "0 < N div T"
    by (simp add: pos_imp_zdiv_pos_iff)
  with T N show ?thesis
    by (simp add: chunk_plan_def Let_def sdiv_nonneg)
qed

lemma chunk_plan_fallback: "0 \<le> N \<Longrightarrow> N < T \<Longrightarrow> chunk_plan N T = (1, N)"
  by (simp add: chunk_plan_def Let_def sdiv_nonneg)

lemma body_launch_even:
  assumes "1 \<le> T" "T \<le> N"
  shows "body_launch N T w c =
     \<lparr>common_num_thread = T, workers = T,
      begin_sys = \<lparr>workqueues = populate_workqueues w N (N div T) T,
                   contexts = populate_context c T, locals = (\<lambda>_. local0),
                   calls = [], holder = (\<lambda>_. None)\<rparr>\<rparr>"
  using assms by (simp add: body_launch_def Let_def chunk_plan_even)

lemma body_launch_fallback:
  assumes "0 \<le> N" "N < T"
  shows "body_launch N T w c =
     \<lparr>common_num_thread = T, workers = N,
      begin_sys = \<lparr>workqueues = populate_workqueues w N 1 N,
                   contexts = populate_context c N, locals = (\<lambda>_. local0),
                   calls = [], holder = (\<lambda>_. None)\<rparr>\<rparr>"
  using assms by (simp add: body_launch_def Let_def chunk_plan_fallback)

section \<open>The lock protocol\<close>

lemma Lock_attempt_eq:
  "Lock_attempt q = (lock_wq q \<noteq> 0, if lock_wq q = 0 then q\<lparr>lock_wq := 1\<rparr> else q)"
  by (simp add: Lock_attempt_def atomic_cmpxchg_def)

lemma Unlock_eq:
  "Unlock q = (if lock_wq q = 1 then Inr (q\<lparr>lock_wq := 0\<rparr>) else Inl Unreachable)"
  by (simp add: Unlock_def atomic_cmpxchg_def)

lemma sys_Lock_eq:
  "sys_Lock tid q after s =
     (if lock_wq (workqueues s q) = 0
      then s\<lparr>workqueues := (workqueues s)(q := (workqueues s q)\<lparr>lock_wq := 1\<rparr>),
             holder := (holder s)(q := Some tid),
             locals := (locals s)(tid := (locals s tid)\<lparr>pc := after\<rparr>)\<rparr>
      else s)"
  by (simp add: sys_Lock_def Lock_attempt_eq goto_def)

lemma sys_Unlock_eq:
  "sys_Unlock tid q after s =
     (if lock_wq (workqueues s q) = 1
      then s\<lparr>workqueues := (workqueues s)(q := (workqueues s q)\<lparr>lock_wq := 0\<rparr>),
             holder := (holder s)(q := None),
             locals := (locals s)(tid := (locals s tid)\<lparr>pc := after\<rparr>)\<rparr>
      else s\<lparr>locals := (locals s)(tid := (locals s tid)\<lparr>pc := Dead\<rparr>)\<rparr>)"
  by (simp add: sys_Unlock_def Unlock_eq goto_def)

lemma worker_step_cases:
  assumes "worker_step cnt tid s = Some s'"
  obtains
    (Lock) q after where "s' = sys_Lock tid q after s"
      "pc (locals s tid) = Drain_lock \<and> q = tid \<and> after = Drain_item \<or>
       pc (locals s tid) = Steal_lock \<and> q = i_l (locals s tid) \<and> after = Steal_test"
  | (Unlock) q after where "s' = sys_Unlock tid q after s"
      "pc (locals s tid) = Drain_unlock \<and> q = tid \<and> after = Drain_test \<or>
       pc (locals s tid) = Steal_unlock_hit \<and> q = i_l (locals s tid) \<and> after = Steal_work \<or>
       pc (locals s tid) = Steal_unlock_miss \<and> q = i_l (locals s tid) \<and> after = Inner_next"
  | (Incr) "pc (locals s tid) = Drain_incr"
      "s' = s\<lparr>workqueues := (workqueues s)(tid := (workqueues s tid)\<lparr>next_wq := next_wq (workqueues s tid) + 1\<rparr>),
              locals := (locals s)(tid := (locals s tid)\<lparr>pc := Drain_last\<rparr>)\<rparr>"
  | (Decr) "pc (locals s tid) = Steal_decr"
      "s' = s\<lparr>workqueues := (workqueues s)(i_l (locals s tid) := (workqueues s (i_l (locals s tid)))
                  \<lparr>last_wq := last_wq (workqueues s (i_l (locals s tid))) - 1\<rparr>),
              locals := (locals s)(tid := (locals s tid)\<lparr>pc := Steal_item\<rparr>)\<rparr>"
  | (Work) after where
      "pc (locals s tid) = Drain_work \<and> after = Drain_count \<or>
       pc (locals s tid) = Steal_work \<and> after = Steal_count"
      "s' = s\<lparr>calls := calls s @ [(tid, item_l (locals s tid))],
              locals := (locals s)(tid := (locals s tid)\<lparr>pc := after\<rparr>)\<rparr>"
  | (Count) after where
      "pc (locals s tid) = Drain_count \<and> after = Drain_lock \<or>
       pc (locals s tid) = Steal_count \<and> after = Steal_mark"
      "s' = s\<lparr>contexts := (contexts s)(tid := (contexts s tid)\<lparr>completed := completed (contexts s tid) + 1\<rparr>),
              locals := (locals s)(tid := (locals s tid)\<lparr>pc := after\<rparr>)\<rparr>"
  | (Local) l' where "s' = s\<lparr>locals := (locals s)(tid := l')\<rparr>"
      "local_move cnt tid (workqueues s tid) (workqueues s (i_l (locals s tid))) (locals s tid) l'"
proof (cases "pc (locals s tid)")
  case Drain_lock
  with assms show ?thesis by (intro Lock) (simp_all add: worker_step_def Let_def)
next
  case Drain_incr
  with assms show ?thesis by (intro Incr) (auto simp add: worker_step_def Let_def goto_def)
next
  case Drain_unlock
  with assms show ?thesis by (intro Unlock) (simp_all add: worker_step_def Let_def)
next
  case Drain_work
  with assms show ?thesis
    by (intro Work [of Drain_count]) (auto simp add: worker_step_def Let_def goto_def sys_do_work_def)
next
  case Drain_count
  with assms show ?thesis
    by (intro Count [of Drain_lock]) (auto simp add: worker_step_def Let_def goto_def sys_count_def)
next
  case Steal_lock
  with assms show ?thesis by (intro Lock) (simp_all add: worker_step_def Let_def)
next
  case Steal_decr
  with assms show ?thesis by (intro Decr) (auto simp add: worker_step_def Let_def goto_def)
next
  case Steal_unlock_hit
  with assms show ?thesis by (intro Unlock) (simp_all add: worker_step_def Let_def)
next
  case Steal_work
  with assms show ?thesis
    by (intro Work [of Steal_count]) (auto simp add: worker_step_def Let_def goto_def sys_do_work_def)
next
  case Steal_count
  with assms show ?thesis
    by (intro Count [of Steal_mark]) (auto simp add: worker_step_def Let_def goto_def sys_count_def)
next
  case Steal_unlock_miss
  with assms show ?thesis by (intro Unlock) (simp_all add: worker_step_def Let_def)
next
  case Drain_item
  with assms have e: "s' = s\<lparr>locals := (locals s)(tid := (locals s tid)\<lparr>pc := Drain_incr, item_l := next_wq (workqueues s tid)\<rparr>)\<rparr>"
    by (auto simp add: worker_step_def Let_def goto_def)
  show ?thesis by (rule Local [OF e]) (simp add: Drain_item local_move_def)
next
  case Drain_last
  with assms have e: "s' = s\<lparr>locals := (locals s)(tid := (locals s tid)\<lparr>pc := Drain_unlock, last_l := last_wq (workqueues s tid)\<rparr>)\<rparr>"
    by (auto simp add: worker_step_def Let_def goto_def)
  show ?thesis by (rule Local [OF e]) (simp add: Drain_last local_move_def)
next
  case Drain_test
  with assms have e: "s' = s\<lparr>locals := (locals s)(tid := (if item_l (locals s tid) \<ge> last_l (locals s tid) then (locals s tid)\<lparr>pc := Steal_begin\<rparr> else (locals s tid)\<lparr>pc := Drain_work\<rparr>))\<rparr>"
    by (auto simp add: worker_step_def Let_def goto_def)
  show ?thesis by (rule Local [OF e]) (simp add: Drain_test local_move_def)
next
  case Steal_begin
  with assms have e: "s' = s\<lparr>locals := (locals s)(tid := (locals s tid)\<lparr>pc := Steal_cond, steal_continue := 1\<rparr>)\<rparr>"
    by (auto simp add: worker_step_def Let_def goto_def)
  show ?thesis by (rule Local [OF e]) (simp add: Steal_begin local_move_def)
next
  case Steal_cond
  with assms have e: "s' = s\<lparr>locals := (locals s)(tid := (if steal_continue (locals s tid) \<noteq> 0 then (locals s tid)\<lparr>pc := Inner_cond, steal_continue := 0, i_l := 0\<rparr> else (locals s tid)\<lparr>pc := Done\<rparr>))\<rparr>"
    by (auto simp add: worker_step_def Let_def goto_def)
  show ?thesis by (rule Local [OF e]) (simp add: Steal_cond local_move_def)
next
  case Inner_cond
  with assms have e: "s' = s\<lparr>locals := (locals s)(tid := (if i_l (locals s tid) < cnt then (if i_l (locals s tid) \<noteq> tid then (locals s tid)\<lparr>pc := Steal_lock\<rparr> else (locals s tid)\<lparr>pc := Inner_next\<rparr>) else (locals s tid)\<lparr>pc := Steal_cond\<rparr>))\<rparr>"
    by (auto simp add: worker_step_def Let_def goto_def)
  show ?thesis by (rule Local [OF e]) (simp add: Inner_cond local_move_def)
next
  case Steal_test
  with assms have e: "s' = s\<lparr>locals := (locals s)(tid := (if next_wq (workqueues s (i_l (locals s tid))) < last_wq (workqueues s (i_l (locals s tid))) then (locals s tid)\<lparr>pc := Steal_decr\<rparr> else (locals s tid)\<lparr>pc := Steal_unlock_miss\<rparr>))\<rparr>"
    by (auto simp add: worker_step_def Let_def goto_def)
  show ?thesis by (rule Local [OF e]) (simp add: Steal_test local_move_def)
next
  case Steal_item
  with assms have e: "s' = s\<lparr>locals := (locals s)(tid := (locals s tid)\<lparr>pc := Steal_unlock_hit, item_l := last_wq (workqueues s (i_l (locals s tid)))\<rparr>)\<rparr>"
    by (auto simp add: worker_step_def Let_def goto_def)
  show ?thesis by (rule Local [OF e]) (simp add: Steal_item local_move_def)
next
  case Steal_mark
  with assms have e: "s' = s\<lparr>locals := (locals s)(tid := (locals s tid)\<lparr>pc := Inner_next, steal_continue := 1\<rparr>)\<rparr>"
    by (auto simp add: worker_step_def Let_def goto_def)
  show ?thesis by (rule Local [OF e]) (simp add: Steal_mark local_move_def)
next
  case Inner_next
  with assms have e: "s' = s\<lparr>locals := (locals s)(tid := (locals s tid)\<lparr>pc := Inner_cond, i_l := i_l (locals s tid) + 1\<rparr>)\<rparr>"
    by (auto simp add: worker_step_def Let_def goto_def)
  show ?thesis by (rule Local [OF e]) (simp add: Inner_next local_move_def)
next
  case Done
  with assms show ?thesis by (simp add: worker_step_def Let_def)
next
  case Dead
  with assms show ?thesis by (simp add: worker_step_def Let_def)
qed

lemma local_move_before:
  assumes "local_move cnt tid wq oq l l'"
  shows "pc l \<in> {Drain_item, Drain_last, Drain_test, Steal_begin, Steal_cond, Inner_cond,
                  Steal_test, Steal_item, Steal_mark, Inner_next}"
  using assms unfolding local_move_def by (elim disjE conjE) simp_all

lemma local_move_after:
  assumes "local_move cnt tid wq oq l l'"
  shows "pc l' \<in> {Drain_incr, Drain_unlock, Steal_begin, Drain_work, Steal_cond, Inner_cond,
                   Done, Steal_lock, Inner_next, Steal_decr, Steal_unlock_miss, Steal_unlock_hit}"
  using assms unfolding local_move_def by (elim disjE conjE) simp_all

lemma local_move_in_cs:
  assumes "local_move cnt tid wq oq l l'"
  shows "in_cs l' tid q \<longleftrightarrow> in_cs l tid q"
  using assms unfolding local_move_def by (elim disjE conjE) (simp_all add: in_cs_def)

lemma local_move_not_Dead:
  assumes "local_move cnt tid wq oq l l'"
  shows "pc l' \<noteq> Dead"
  using assms unfolding local_move_def by (elim disjE conjE) simp_all

lemma lock_invD:
  assumes "lock_inv s"
  shows "holder s q = Some t \<longleftrightarrow> in_cs (locals s t) t q"
    and "holder s q = Some t \<Longrightarrow> lock_wq (workqueues s q) = 1"
    and "pc (locals s t) \<noteq> Dead"
  using assms by (auto simp: lock_inv_def)

lemma lock_inv_Lock:
  assumes inv: "lock_inv s"
    and at: "\<And>q'. \<not> in_cs (locals s tid) tid q'"
    and after: "\<And>q'. in_cs ((locals s tid)\<lparr>pc := after\<rparr>) tid q' \<longleftrightarrow> q' = q" "after \<noteq> Dead"
  shows "lock_inv (sys_Lock tid q after s)"
proof (cases "lock_wq (workqueues s q) = 0")
  case False
  then show ?thesis using inv by (simp add: sys_Lock_eq)
next
  case True
  then have free: "holder s q \<noteq> Some t" for t
    using lock_invD(2) [OF inv, of q t] by auto
  have nohold: "holder s q' \<noteq> Some tid" for q'
    using lock_invD(1) [OF inv, of q' tid] at by simp
  show ?thesis
    unfolding lock_inv_def
  proof (intro conjI allI)
    fix q' t
    show "holder (sys_Lock tid q after s) q' = Some t \<longleftrightarrow>
          in_cs (locals (sys_Lock tid q after s) t) t q'"
      using True free [of t] nohold [of q'] after(1) [of q'] lock_invD(1) [OF inv, of q' t]
      by (auto simp add: sys_Lock_eq)
    show "holder (sys_Lock tid q after s) q' = Some t \<longrightarrow>
          lock_wq (workqueues (sys_Lock tid q after s) q') = 1"
      using True lock_invD(2) [OF inv, of q' t]
      by (simp add: sys_Lock_eq)
  next
    fix t
    show "pc (locals (sys_Lock tid q after s) t) \<noteq> Dead"
      using True after(2) lock_invD(3) [OF inv, of t]
      by (simp add: sys_Lock_eq)
  qed
qed


lemma lock_inv_Unlock:
  assumes inv: "lock_inv s"
    and at: "in_cs (locals s tid) tid q"
    and after: "\<And>q'. \<not> in_cs ((locals s tid)\<lparr>pc := after\<rparr>) tid q'" "after \<noteq> Dead"
  shows "lock_inv (sys_Unlock tid q after s)"
proof -
  from at have held: "holder s q = Some tid"
    using lock_invD(1) [OF inv, of q tid] by simp
  then have locked: "lock_wq (workqueues s q) = 1"
    by (rule lock_invD(2) [OF inv])
  have only: "holder s q' = Some tid \<Longrightarrow> q' = q" for q'
    using lock_invD(1) [OF inv, of q' tid] at by (auto simp: in_cs_def)
  show ?thesis
    unfolding lock_inv_def
  proof (intro conjI allI)
    fix q' t
    have upd: "holder (sys_Unlock tid q after s) = (holder s)(q := None)"
      "locals (sys_Unlock tid q after s) = (locals s)(tid := (locals s tid)\<lparr>pc := after\<rparr>)"
      using locked by (simp_all add: sys_Unlock_eq)
    show "holder (sys_Unlock tid q after s) q' = Some t \<longleftrightarrow>
          in_cs (locals (sys_Unlock tid q after s) t) t q'"
    proof (cases "t = tid")
      case True
      have "holder s q' = Some tid \<Longrightarrow> q' = q" by (rule only)
      then have "((holder s)(q := None)) q' \<noteq> Some tid" by auto
      then show ?thesis using after(1) [of q'] by (simp add: upd True)
    next
      case False
      have "holder s q \<noteq> Some t" using held False by simp
      then have "\<not> in_cs (locals s t) t q" using lock_invD(1) [OF inv, of q t] by simp
      then show ?thesis using False lock_invD(1) [OF inv, of q' t]
        by (cases "q' = q") (simp_all add: upd)
    qed
    show "holder (sys_Unlock tid q after s) q' = Some t \<longrightarrow>
          lock_wq (workqueues (sys_Unlock tid q after s) q') = 1"
      using locked lock_invD(2) [OF inv, of q' t]
      by (simp add: sys_Unlock_eq)
  next
    fix t
    show "pc (locals (sys_Unlock tid q after s) t) \<noteq> Dead"
      using locked after(2) lock_invD(3) [OF inv, of t]
      by (simp add: sys_Unlock_eq)
  qed
qed


lemma lock_inv_frame:
  assumes inv: "lock_inv s"
    and h: "holder s' = holder s"
    and l: "\<And>t. t \<noteq> tid \<Longrightarrow> locals s' t = locals s t"
    and cs: "\<And>q. in_cs (locals s' tid) tid q \<longleftrightarrow> in_cs (locals s tid) tid q"
    and dead: "pc (locals s' tid) \<noteq> Dead"
    and w: "\<And>q. lock_wq (workqueues s' q) = lock_wq (workqueues s q)"
  shows "lock_inv s'"
  unfolding lock_inv_def
proof (intro conjI allI)
  fix q t
  show "holder s' q = Some t \<longleftrightarrow> in_cs (locals s' t) t q"
    using lock_invD(1) [OF inv, of q t] cs [of q] l [of t] by (cases "t = tid") (simp_all add: h)
  show "holder s' q = Some t \<longrightarrow> lock_wq (workqueues s' q) = 1"
    using lock_invD(2) [OF inv, of q t] by (simp add: h w)
next
  fix t
  show "pc (locals s' t) \<noteq> Dead"
    using lock_invD(3) [OF inv, of t] dead l [of t] by (cases "t = tid") simp_all
qed

lemma lock_inv_step:
  assumes inv: "lock_inv s" and step: "worker_step cnt tid s = Some s'"
  shows "lock_inv s'"
  using step
proof (cases rule: worker_step_cases)
  case (Lock q after)
  from Lock(2) have "\<not> in_cs (locals s tid) tid q'"
    and "in_cs ((locals s tid)\<lparr>pc := after\<rparr>) tid q' \<longleftrightarrow> q' = q" and "after \<noteq> Dead" for q'
    by (elim disjE conjE, simp add: in_cs_def, simp add: in_cs_def)+
  then show ?thesis unfolding Lock(1)
    by (intro lock_inv_Lock [OF inv])
next
  case (Unlock q after)
  from Unlock(2) have "in_cs (locals s tid) tid q"
    and "\<not> in_cs ((locals s tid)\<lparr>pc := after\<rparr>) tid q'" and "after \<noteq> Dead" for q'
    by (elim disjE conjE, simp add: in_cs_def, simp add: in_cs_def, simp add: in_cs_def)+
  then show ?thesis unfolding Unlock(1)
    by (intro lock_inv_Unlock [OF inv])
next
  case Incr
  show ?thesis
    by (rule lock_inv_frame [OF inv, where tid = tid]) (simp_all add: Incr in_cs_def)
next
  case Decr
  show ?thesis
    by (rule lock_inv_frame [OF inv, where tid = tid]) (simp_all add: Decr in_cs_def)
next
  case (Work after)
  from Work(1) have "\<not> in_cs (locals s tid) tid q'"
    and "\<not> in_cs ((locals s tid)\<lparr>pc := after\<rparr>) tid q'" and "after \<noteq> Dead" for q'
    by (elim disjE conjE, simp add: in_cs_def, simp add: in_cs_def)+
  then show ?thesis
    by (intro lock_inv_frame [OF inv, where tid = tid]) (simp_all add: Work(2))
next
  case (Count after)
  from Count(1) have "\<not> in_cs (locals s tid) tid q'"
    and "\<not> in_cs ((locals s tid)\<lparr>pc := after\<rparr>) tid q'" and "after \<noteq> Dead" for q'
    by (elim disjE conjE, simp add: in_cs_def, simp add: in_cs_def)+
  then show ?thesis
    by (intro lock_inv_frame [OF inv, where tid = tid]) (simp_all add: Count(2))
next
  case (Local l')
  show ?thesis
    by (rule lock_inv_frame [OF inv, where tid = tid])
       (simp_all add: Local(1) local_move_in_cs [OF Local(2)] local_move_not_Dead [OF Local(2)])
qed

lemma lock_inv_mutex:
  assumes "lock_inv s" and "in_cs (locals s t) t q" and "in_cs (locals s t') t' q"
  shows "t = t'"
  using lock_invD(1) [OF assms(1), of q t] lock_invD(1) [OF assms(1), of q t'] assms(2,3)
  by simp

lemma lock_inv_locked:
  assumes "lock_inv s" and "in_cs (locals s t) t q"
  shows "lock_wq (workqueues s q) = 1" and "holder s q = Some t"
  using lock_invD(1) [OF assms(1), of q t] lock_invD(2) [OF assms(1), of q t] assms(2)
  by simp_all

section \<open>The queue invariant\<close>

lemma queue_invD:
  assumes "queue_inv s0 s q"
  shows "next_wq (workqueues s0 q) \<le> next_wq (workqueues s q)"
    and "next_wq (workqueues s q) \<le> last_wq (workqueues s q) + 1"
    and "next_wq (workqueues s0 q) \<le> last_wq (workqueues s q)"
    and "last_wq (workqueues s q) \<le> last_wq (workqueues s0 q)"
    and "owner_ok (locals s q) (next_wq (workqueues s q)) (last_wq (workqueues s q))"
    and "i_l (locals s t) = q \<Longrightarrow>
          thief_ok (locals s t) (next_wq (workqueues s q)) (last_wq (workqueues s q))"
  using assms by (simp_all add: queue_inv_def)

lemma queue_inv_frame:
  assumes qi: "queue_inv s0 s q"
    and nx: "next_wq (workqueues s' q) = next_wq (workqueues s q)"
    and la: "last_wq (workqueues s' q) = last_wq (workqueues s q)"
    and oth: "\<And>t. t \<noteq> tid \<Longrightarrow> locals s' t = locals s t"
    and own: "q = tid \<Longrightarrow>
      owner_ok (locals s' tid) (next_wq (workqueues s q)) (last_wq (workqueues s q))"
    and thf: "i_l (locals s' tid) = q \<Longrightarrow>
      thief_ok (locals s' tid) (next_wq (workqueues s q)) (last_wq (workqueues s q))"
  shows "queue_inv s0 s' q"
  unfolding queue_inv_def nx la
proof (intro conjI allI impI)
  show "owner_ok (locals s' q) (next_wq (workqueues s q)) (last_wq (workqueues s q))"
    using own oth [of q] queue_invD(5) [OF qi] by (cases "q = tid") simp_all
next
  fix t assume "i_l (locals s' t) = q"
  then show "thief_ok (locals s' t) (next_wq (workqueues s q)) (last_wq (workqueues s q))"
    using thf oth [of t] queue_invD(6) [OF qi, of t] by (cases "t = tid") simp_all
qed (use queue_invD(1-4) [OF qi] in simp_all)


lemma thief_ok_outside:
  assumes "\<not> in_cs l t (i_l l)"
  shows "thief_ok l a b"
  using assms by (cases "pc l") (simp_all add: thief_ok_def in_cs_def)

lemma owner_ok_decr:
  assumes "owner_ok l nx la" and "nx < la" and "\<not> in_cs l t t"
  shows "owner_ok l nx (la - 1)"
  using assms by (cases "pc l") (simp_all add: owner_ok_def in_cs_def)

lemma queue_inv_step:
  assumes li: "lock_inv s" and qi: "queue_inv s0 s q" and step: "worker_step cnt tid s = Some s'"
  shows "queue_inv s0 s' q"
  using step
proof (cases rule: worker_step_cases)
  case (Lock q' after)
  show ?thesis
  proof (cases "lock_wq (workqueues s q') = 0")
    case False
    then show ?thesis using qi by (simp add: Lock(1) sys_Lock_eq)
  next
    case True
    show ?thesis
    proof (rule queue_inv_frame [OF qi, where tid = tid])
      show "owner_ok (locals s' tid) (next_wq (workqueues s q)) (last_wq (workqueues s q))"
        if "q = tid"
        using Lock(2) queue_invD(5) [OF qi] that
        by (elim disjE conjE) (simp_all add: Lock(1) sys_Lock_eq True owner_ok_def)
      show "thief_ok (locals s' tid) (next_wq (workqueues s q)) (last_wq (workqueues s q))"
        using Lock(2)
        by (elim disjE conjE) (simp_all add: Lock(1) sys_Lock_eq True thief_ok_def)
    qed (simp_all add: Lock(1) sys_Lock_eq True)
  qed
next
  case (Unlock q' after)
  from Unlock(2) have "in_cs (locals s tid) tid q'"
    by (elim disjE conjE) (simp_all add: in_cs_def)
  then have locked: "lock_wq (workqueues s q') = 1"
    by (rule lock_inv_locked(1) [OF li])
  show ?thesis
  proof (rule queue_inv_frame [OF qi, where tid = tid])
    show "owner_ok (locals s' tid) (next_wq (workqueues s q)) (last_wq (workqueues s q))"
      if "q = tid"
      using Unlock(2) queue_invD(5) [OF qi] queue_invD(2) [OF qi] that
      by (elim disjE conjE) (simp_all add: Unlock(1) sys_Unlock_eq locked owner_ok_def)
    show "thief_ok (locals s' tid) (next_wq (workqueues s q)) (last_wq (workqueues s q))"
      using Unlock(2)
      by (elim disjE conjE) (simp_all add: Unlock(1) sys_Unlock_eq locked thief_ok_def)
  qed (simp_all add: Unlock(1) sys_Unlock_eq locked)
next
  case Incr
  have cs: "in_cs (locals s tid) tid tid" by (simp add: in_cs_def Incr(1))
  show ?thesis
  proof (cases "q = tid")
    case False
    show ?thesis
      by (rule queue_inv_frame [OF qi, where tid = tid])
         (simp_all add: Incr(2) False thief_ok_def)
  next
    case True
    have o: "item_l (locals s tid) = next_wq (workqueues s tid)"
      "next_wq (workqueues s tid) \<le> last_wq (workqueues s tid)"
      using queue_invD(5) [OF qi] by (simp_all add: True owner_ok_def Incr(1))
    have th: "thief_ok (locals s t) a b" if "t \<noteq> tid" "i_l (locals s t) = tid" for t a b
    proof (rule thief_ok_outside)
      show "\<not> in_cs (locals s t) t (i_l (locals s t))"
        using lock_inv_mutex [OF li _ cs, of t] that by auto
    qed
    show ?thesis
      unfolding queue_inv_def
    proof (intro conjI allI impI)
      fix t assume "i_l (locals s' t) = q"
      then show "thief_ok (locals s' t) (next_wq (workqueues s' q)) (last_wq (workqueues s' q))"
        using th [of t] by (cases "t = tid") (simp_all add: Incr(2) True thief_ok_def)
    qed (use o queue_invD(1-4) [OF qi] in \<open>simp_all add: Incr(2) True owner_ok_def\<close>)
  qed
next
  case Decr
  have cs: "in_cs (locals s tid) tid (i_l (locals s tid))" by (simp add: in_cs_def Decr(1))
  show ?thesis
  proof (cases "q = i_l (locals s tid)")
    case False
    show ?thesis
    proof (rule queue_inv_frame [OF qi, where tid = tid])
      show "owner_ok (locals s' tid) (next_wq (workqueues s q)) (last_wq (workqueues s q))"
        if "q = tid"
        using queue_invD(5) [OF qi] that by (simp add: Decr owner_ok_def)
    qed (use False in \<open>simp_all add: Decr(2) thief_ok_def\<close>)
  next
    case True
    have lt: "next_wq (workqueues s q) < last_wq (workqueues s q)"
      using queue_invD(6) [OF qi, of tid] by (simp add: True thief_ok_def Decr(1))
    have th: "thief_ok (locals s t) a b" if "t \<noteq> tid" "i_l (locals s t) = q" for t a b
    proof (rule thief_ok_outside)
      show "\<not> in_cs (locals s t) t (i_l (locals s t))"
        using lock_inv_mutex [OF li _ cs, of t] that True by auto
    qed
    have ow: "owner_ok (locals s' q) (next_wq (workqueues s q)) (last_wq (workqueues s q) - 1)"
    proof (cases "q = tid")
      case False
      have "\<not> in_cs (locals s q) q q"
        using lock_inv_mutex [OF li _ cs, of q] False True by auto
      from owner_ok_decr [OF queue_invD(5) [OF qi] lt this] False
      show ?thesis by (simp add: Decr(2))
    next
      case qt: True
      from queue_invD(5) [OF qi] lt show ?thesis
        by (simp add: qt owner_ok_def Decr(1))
    qed
    show ?thesis
      unfolding queue_inv_def
    proof (intro conjI allI impI)
      fix t assume "i_l (locals s' t) = q"
      then show "thief_ok (locals s' t) (next_wq (workqueues s' q)) (last_wq (workqueues s' q))"
        using th [of t] lt by (cases "t = tid") (simp_all add: Decr(2) True thief_ok_def)
    next
      show "owner_ok (locals s' q) (next_wq (workqueues s' q)) (last_wq (workqueues s' q))"
        using ow by (simp add: Decr(2) True)
    qed (use lt queue_invD(1-4) [OF qi] in \<open>simp_all add: Decr(2) True\<close>)
  qed
next
  case (Work after)
  show ?thesis
  proof (rule queue_inv_frame [OF qi, where tid = tid])
    show "owner_ok (locals s' tid) (next_wq (workqueues s q)) (last_wq (workqueues s q))"
      if "q = tid"
      using Work(1) queue_invD(5) [OF qi] that
      by (elim disjE conjE) (simp_all add: Work(2) owner_ok_def)
    show "thief_ok (locals s' tid) (next_wq (workqueues s q)) (last_wq (workqueues s q))"
      using Work(1) by (elim disjE conjE) (simp_all add: Work(2) thief_ok_def)
  qed (simp_all add: Work(2))
next
  case (Count after)
  show ?thesis
  proof (rule queue_inv_frame [OF qi, where tid = tid])
    show "owner_ok (locals s' tid) (next_wq (workqueues s q)) (last_wq (workqueues s q))"
      if "q = tid"
      using Count(1) queue_invD(5) [OF qi] that
      by (elim disjE conjE) (simp_all add: Count(2) owner_ok_def)
    show "thief_ok (locals s' tid) (next_wq (workqueues s q)) (last_wq (workqueues s q))"
      using Count(1) by (elim disjE conjE) (simp_all add: Count(2) thief_ok_def)
  qed (simp_all add: Count(2))
next
  case (Local l')
  show ?thesis
  proof (rule queue_inv_frame [OF qi, where tid = tid])
    show "owner_ok (locals s' tid) (next_wq (workqueues s q)) (last_wq (workqueues s q))"
      if "q = tid"
      using Local(2) queue_invD(5) [OF qi] queue_invD(2) [OF qi] that
      unfolding local_move_def
      by (elim disjE conjE) (simp_all add: Local(1) owner_ok_def)
    show "thief_ok (locals s' tid) (next_wq (workqueues s q)) (last_wq (workqueues s q))"
      if "i_l (locals s' tid) = q"
      using Local(2) that
      unfolding local_move_def
      by (elim disjE conjE) (simp_all add: Local(1) thief_ok_def)
  qed (simp_all add: Local(1))
qed


section \<open>Frame properties of a step\<close>

lemma worker_step_other_locals:
  assumes "worker_step cnt tid s = Some s'" and "t \<noteq> tid"
  shows "locals s' t = locals s t"
  using assms(1)
proof (cases rule: worker_step_cases)
  case (Lock q after)
  then show ?thesis using assms(2) by (simp add: sys_Lock_eq)
next
  case (Unlock q after)
  then show ?thesis using assms(2) by (simp add: sys_Unlock_eq)
qed (simp_all add: assms(2))

lemma reachable_unspawned:
  assumes "reachable cnt nt s0 s" and "\<not> (0 \<le> t \<and> t < nt)"
  shows "locals s t = locals s0 t"
  using assms
proof (induction rule: reachable.induct)
  case start
  show ?case by simp
next
  case (step s s')
  from step.hyps(2) obtain tid where "0 \<le> tid" "tid < nt" "worker_step cnt tid s = Some s'"
    by (auto simp: sys_step_def)
  with step.prems have "locals s' t = locals s t"
    by (intro worker_step_other_locals [where tid = tid]) auto
  with step show ?case by simp
qed

lemma worker_step_next:
  assumes "worker_step cnt tid s = Some s'"
  shows "next_wq (workqueues s' q) =
     (if pc (locals s tid) = Drain_incr \<and> q = tid then next_wq (workqueues s q) + 1
      else next_wq (workqueues s q))"
  using assms
proof (cases rule: worker_step_cases)
  case (Lock q' after)
  from Lock(2) show ?thesis
    by (elim disjE conjE) (simp_all add: Lock(1) sys_Lock_eq)
next
  case (Unlock q' after)
  from Unlock(2) show ?thesis
    by (elim disjE conjE) (simp_all add: Unlock(1) sys_Unlock_eq)
next
  case (Work after)
  from Work(1) show ?thesis by (elim disjE conjE) (simp_all add: Work(2))
next
  case (Count after)
  from Count(1) show ?thesis by (elim disjE conjE) (simp_all add: Count(2))
next
  case (Local l')
  from local_move_before [OF Local(2)] show ?thesis by (auto simp: Local(1))
qed simp_all

lemma worker_step_last:
  assumes "worker_step cnt tid s = Some s'"
  shows "last_wq (workqueues s' q) =
     (if pc (locals s tid) = Steal_decr \<and> q = i_l (locals s tid) then last_wq (workqueues s q) - 1
      else last_wq (workqueues s q))"
  using assms
proof (cases rule: worker_step_cases)
  case (Lock q' after)
  from Lock(2) show ?thesis
    by (elim disjE conjE) (simp_all add: Lock(1) sys_Lock_eq)
next
  case (Unlock q' after)
  from Unlock(2) show ?thesis
    by (elim disjE conjE) (simp_all add: Unlock(1) sys_Unlock_eq)
next
  case (Work after)
  from Work(1) show ?thesis by (elim disjE conjE) (simp_all add: Work(2))
next
  case (Count after)
  from Count(1) show ?thesis by (elim disjE conjE) (simp_all add: Count(2))
next
  case (Local l')
  from local_move_before [OF Local(2)] show ?thesis by (auto simp: Local(1))
qed simp_all

section \<open>Reachable states of a call\<close>

lemma begin_sys_fields:
  "locals (begin_sys (body_launch N T w c)) = (\<lambda>_. local0)"
  "holder (begin_sys (body_launch N T w c)) = (\<lambda>_. None)"
  "calls (begin_sys (body_launch N T w c)) = []"
  "common_num_thread (body_launch N T w c) = T"
  by (simp_all add: body_launch_def Let_def split: prod.split)

lemma lock_inv_begin: "lock_inv (begin_sys (body_launch N T w c))"
  by (simp add: lock_inv_def begin_sys_fields in_cs_def local0_def)

lemma div_mult_le_int: "0 < T \<Longrightarrow> T * (N div T) \<le> (N::int)"
  using mult_div_mod_eq [of T N] pos_mod_sign [of T N] by linarith

lemma built_queue_bounds:
  assumes "0 \<le> N" and "1 \<le> T" and "0 \<le> q" and "q < workers (body_launch N T w c)"
  shows "0 \<le> next_wq (workqueues (begin_sys (body_launch N T w c)) q)"
    and "next_wq (workqueues (begin_sys (body_launch N T w c)) q) \<le>
         last_wq (workqueues (begin_sys (body_launch N T w c)) q)"
    and "last_wq (workqueues (begin_sys (body_launch N T w c)) q) \<le> N"
proof -
  let ?c = "N div T"
  have c: "0 \<le> ?c" using assms(1,2) by (simp add: pos_imp_zdiv_nonneg_iff)
  have tc: "T * ?c \<le> N" using assms(2) by (intro div_mult_le_int) simp
  have le: "(i + 1) * ?c \<le> N" if "i + 1 \<le> T" for i
  proof -
    have "(i + 1) * ?c \<le> T * ?c" using that c by (rule mult_right_mono)
    with tc show ?thesis by simp
  qed
  have mono: "i * ?c \<le> (i + 1) * ?c" for i
    using c by (simp add: algebra_simps)
  show "0 \<le> next_wq (workqueues (begin_sys (body_launch N T w c)) q)"
    using assms c
    by (cases "T \<le> N")
       (simp_all add: body_launch_even body_launch_fallback populate_workqueues_apply)
  show "next_wq (workqueues (begin_sys (body_launch N T w c)) q) \<le>
         last_wq (workqueues (begin_sys (body_launch N T w c)) q)"
  proof (cases "T \<le> N")
    case True
    have "q * ?c \<le> N" using le [of "q - 1"] mono [of "q - 1"] mono [of q] le [of q] assms True
      by (cases "q + 1 \<le> T") (simp_all add: body_launch_even)
    then show ?thesis using assms True mono [of q]
      by (auto simp add: body_launch_even populate_workqueues_apply)
  next
    case False
    then show ?thesis using assms
      by (simp add: body_launch_fallback populate_workqueues_apply)
  qed
  show "last_wq (workqueues (begin_sys (body_launch N T w c)) q) \<le> N"
  proof (cases "T \<le> N")
    case True
    then show ?thesis using assms le [of q]
      by (simp add: body_launch_even populate_workqueues_apply)
  next
    case False
    then show ?thesis using assms
      by (simp add: body_launch_fallback populate_workqueues_apply)
  qed
qed

lemma queue_inv_begin:
  assumes "0 \<le> N" and "1 \<le> T" and "0 \<le> q" and "q < workers (body_launch N T w c)"
  shows "queue_inv (begin_sys (body_launch N T w c)) (begin_sys (body_launch N T w c)) q"
  using built_queue_bounds(2) [OF assms]
  by (simp add: queue_inv_def begin_sys_fields owner_ok_def thief_ok_def local0_def)

lemma reachable_lock_inv:
  assumes "reachable cnt nt s0 s" and "lock_inv s0"
  shows "lock_inv s"
  using assms
proof (induction rule: reachable.induct)
  case start
  then show ?case .
next
  case (step s s')
  then show ?case by (auto simp: sys_step_def intro: lock_inv_step)
qed

lemma reachable_queue_inv:
  assumes "reachable cnt nt s0 s" and "lock_inv s0" and "queue_inv s0 s0 q"
  shows "queue_inv s0 s q"
  using assms
proof (induction rule: reachable.induct)
  case start
  then show ?case by simp
next
  case (step s s')
  from step.hyps(1) step.prems(1) have "lock_inv s" by (rule reachable_lock_inv)
  moreover from step have "queue_inv s0 s q" by simp
  ultimately show ?case using step.hyps(2) by (auto simp: sys_step_def intro: queue_inv_step)
qed

lemma running_lock_inv: "running N T w c s \<Longrightarrow> lock_inv s"
  unfolding running_def Let_def by (erule reachable_lock_inv) (rule lock_inv_begin)

lemma running_queue_inv:
  assumes "running N T w c s" and "0 \<le> N" and "1 \<le> T"
    and "0 \<le> q" and "q < workers (body_launch N T w c)"
  shows "queue_inv (begin_sys (body_launch N T w c)) s q"
  using assms(1) unfolding running_def Let_def
  by (rule reachable_queue_inv) (rule lock_inv_begin, rule queue_inv_begin [OF assms(2-5)])

lemma worker_step_None_iff:
  "worker_step cnt tid s = None \<longleftrightarrow> pc (locals s tid) = Done \<or> pc (locals s tid) = Dead"
  by (cases "pc (locals s tid)") (simp_all add: worker_step_def Let_def)

lemma run_schedule_append:
  "run_schedule cnt (xs @ ys) s = run_schedule cnt ys (run_schedule cnt xs s)"
  by (induction xs arbitrary: s) (simp_all split: option.split)

lemma run_schedule_reachable:
  assumes "reachable cnt nt s0 s" and "\<forall>t \<in> set sched. 0 \<le> t \<and> t < nt"
  shows "reachable cnt nt s0 (run_schedule cnt sched s)"
  using assms
proof (induction sched arbitrary: s)
  case Nil
  then show ?case by simp
next
  case (Cons t sched)
  show ?case
  proof (cases "worker_step cnt t s")
    case None
    with Cons show ?thesis by simp
  next
    case (Some s')
    with Cons.prems have "reachable cnt nt s0 s'"
      by (intro reachable.step [of cnt nt s0 s s']) (auto simp: sys_step_def)
    with Cons Some show ?thesis by simp
  qed
qed

lemma running_run_call:
  assumes "\<forall>t \<in> set sched. 0 \<le> t \<and> t < workers (body_launch N T w c)"
  shows "running N T w c (run_call N T w c sched)"
  unfolding running_def run_call_def Let_def
  by (rule run_schedule_reachable [OF reachable.start assms])

lemma run_call_snoc:
  assumes "pc (locals (run_call N T w c sched) tid) \<noteq> Done"
    and "pc (locals (run_call N T w c sched) tid) \<noteq> Dead"
  shows "worker_step (common_num_thread (body_launch N T w c)) tid (run_call N T w c sched) =
         Some (run_call N T w c (sched @ [tid]))"
proof -
  from assms obtain s' where
    "worker_step (common_num_thread (body_launch N T w c)) tid (run_call N T w c sched) = Some s'"
    using worker_step_None_iff [of "common_num_thread (body_launch N T w c)" tid
        "run_call N T w c sched"] by auto
  then show ?thesis
    by (simp add: run_call_def Let_def run_schedule_append)
qed


section \<open>A worker running alone: the stealing phase\<close>

lemma solo_0 [simp]: "solo cnt tid 0 s = s"
  by (simp add: solo_def)

lemma solo_Suc:
  "solo cnt tid (Suc k) s =
     (case worker_step cnt tid s of Some s' \<Rightarrow> solo cnt tid k s' | None \<Rightarrow> solo cnt tid k s)"
  by (simp add: solo_def split: option.split)

lemma solo_add: "solo cnt tid (a + b) s = solo cnt tid b (solo cnt tid a s)"
  by (simp add: solo_def replicate_add run_schedule_append)

lemma lock_wq_update_same: "lock_wq r = v \<Longrightarrow> r\<lparr>lock_wq := v\<rparr> = r"
  by (cases r) simp

lemma steal_hit_run:
  assumes pc: "pc (locals s tid) = Steal_lock"
    and lk: "lock_wq (workqueues s (i_l (locals s tid))) = 0"
    and w: "has_work s (i_l (locals s tid))"
  shows "lock_wq (workqueues (solo cnt tid 1 s) (i_l (locals s tid))) = 1"
    and "workqueues (solo cnt tid 5 s) = (workqueues s)(i_l (locals s tid) :=
           (workqueues s (i_l (locals s tid)))
             \<lparr>last_wq := last_wq (workqueues s (i_l (locals s tid))) - 1\<rparr>)"
    and "calls (solo cnt tid 5 s) = calls s"
    and "pc (locals (solo cnt tid 5 s) tid) = Steal_work"
    and "item_l (locals (solo cnt tid 5 s) tid) = last_wq (workqueues s (i_l (locals s tid))) - 1"
    and "workqueues (solo cnt tid 8 s) = workqueues (solo cnt tid 5 s)"
    and "calls (solo cnt tid 8 s) =
           calls s @ [(tid, last_wq (workqueues s (i_l (locals s tid))) - 1)]"
    and "contexts (solo cnt tid 8 s) = (contexts s)(tid := (contexts s tid)
           \<lparr>completed := completed (contexts s tid) + 1\<rparr>)"
    and "pc (locals (solo cnt tid 8 s) tid) = Inner_next"
    and "steal_continue (locals (solo cnt tid 8 s) tid) = 1"
    and "i_l (locals (solo cnt tid 8 s) tid) = i_l (locals s tid)"
  using assms
  by (simp_all add: eval_nat_numeral solo_Suc worker_step_def Let_def sys_Lock_eq sys_Unlock_eq
        goto_def sys_do_work_def sys_count_def has_work_def lock_wq_update_same)

lemma steal_miss_run:
  assumes pc: "pc (locals s tid) = Steal_lock"
    and lk: "lock_wq (workqueues s (i_l (locals s tid))) = 0"
    and w: "\<not> has_work s (i_l (locals s tid))"
  shows "lock_wq (workqueues (solo cnt tid 1 s) (i_l (locals s tid))) = 1"
    and "workqueues (solo cnt tid 3 s) = workqueues s"
    and "calls (solo cnt tid 3 s) = calls s"
    and "contexts (solo cnt tid 3 s) = contexts s"
    and "pc (locals (solo cnt tid 3 s) tid) = Inner_next"
    and "steal_continue (locals (solo cnt tid 3 s) tid) = steal_continue (locals s tid)"
    and "i_l (locals (solo cnt tid 3 s) tid) = i_l (locals s tid)"
  using assms
  by (simp_all add: eval_nat_numeral solo_Suc worker_step_def Let_def sys_Lock_eq sys_Unlock_eq
        goto_def sys_do_work_def sys_count_def has_work_def lock_wq_update_same)

lemma inner_cond_exit:
  assumes "pc (locals s tid) = Inner_cond" and "\<not> i_l (locals s tid) < cnt"
  shows "pc (locals (solo cnt tid 1 s) tid) = Steal_cond"
    and "workqueues (solo cnt tid 1 s) = workqueues s"
    and "calls (solo cnt tid 1 s) = calls s"
    and "contexts (solo cnt tid 1 s) = contexts s"
    and "steal_continue (locals (solo cnt tid 1 s) tid) = steal_continue (locals s tid)"
  using assms by (simp_all add: solo_Suc worker_step_def Let_def goto_def)

lemma inner_cond_self:
  assumes "pc (locals s tid) = Inner_cond" and "i_l (locals s tid) < cnt"
    and "i_l (locals s tid) = tid"
  shows "pc (locals (solo cnt tid 2 s) tid) = Inner_cond"
    and "i_l (locals (solo cnt tid 2 s) tid) = i_l (locals s tid) + 1"
    and "workqueues (solo cnt tid 2 s) = workqueues s"
    and "calls (solo cnt tid 2 s) = calls s"
    and "contexts (solo cnt tid 2 s) = contexts s"
    and "steal_continue (locals (solo cnt tid 2 s) tid) = steal_continue (locals s tid)"
  using assms by (simp_all add: eval_nat_numeral solo_Suc worker_step_def Let_def goto_def)

lemma inner_cond_peer:
  assumes "pc (locals s tid) = Inner_cond" and "i_l (locals s tid) < cnt"
    and "i_l (locals s tid) \<noteq> tid"
  shows "pc (locals (solo cnt tid 1 s) tid) = Steal_lock"
    and "i_l (locals (solo cnt tid 1 s) tid) = i_l (locals s tid)"
    and "workqueues (solo cnt tid 1 s) = workqueues s"
    and "calls (solo cnt tid 1 s) = calls s"
    and "contexts (solo cnt tid 1 s) = contexts s"
    and "steal_continue (locals (solo cnt tid 1 s) tid) = steal_continue (locals s tid)"
  using assms by (simp_all add: solo_Suc worker_step_def Let_def goto_def)

lemma inner_next_run:
  assumes "pc (locals s tid) = Inner_next"
  shows "pc (locals (solo cnt tid 1 s) tid) = Inner_cond"
    and "i_l (locals (solo cnt tid 1 s) tid) = i_l (locals s tid) + 1"
    and "workqueues (solo cnt tid 1 s) = workqueues s"
    and "calls (solo cnt tid 1 s) = calls s"
    and "contexts (solo cnt tid 1 s) = contexts s"
    and "steal_continue (locals (solo cnt tid 1 s) tid) = steal_continue (locals s tid)"
  using assms by (simp_all add: solo_Suc worker_step_def Let_def goto_def)

lemma peers_from_empty: "\<not> j < cnt \<Longrightarrow> peers_from j cnt tid = []"
  by (simp add: peers_from_def)

lemma peers_from_step:
  assumes "0 \<le> j" and "j < cnt"
  shows "peers_from j cnt tid = (if j \<noteq> tid then [j] else []) @ peers_from (j + 1) cnt tid"
proof -
  from assms have "nat j < nat cnt" by simp
  then have "[nat j..<nat cnt] = nat j # [Suc (nat j)..<nat cnt]" by (rule upt_conv_Cons)
  moreover have "Suc (nat j) = nat (j + 1)" using assms by simp
  ultimately show ?thesis using assms by (simp add: peers_from_def)
qed

lemma peers_from_mem:
  assumes "q \<in> set (peers_from j cnt tid)" and "0 \<le> j"
  shows "j \<le> q \<and> q < cnt \<and> q \<noteq> tid"
  using assms by (auto simp: peers_from_def)

lemma swept_skip:
  assumes "swept m tid sc rest s'"
    and "workqueues m = workqueues s" and "calls m = calls s" and "contexts m = contexts s"
  shows "swept s tid sc rest s'"
  using assms by (simp add: swept_def)

lemma swept_hit:
  assumes sw: "swept m tid 1 rest s'"
    and wq: "workqueues m = (workqueues s)(j := (workqueues s j)\<lparr>last_wq := last_wq (workqueues s j) - 1\<rparr>)"
    and ca: "calls m = calls s @ [(tid, last_wq (workqueues s j) - 1)]"
    and co: "contexts m = (contexts s)(tid := (contexts s tid)\<lparr>completed := completed (contexts s tid) + 1\<rparr>)"
    and nin: "j \<notin> set rest"
  shows "swept s tid sc (j # rest) s'"
proof -
  have same: "workqueues m q = workqueues s q" if "q \<in> set rest" for q
    using that nin by (auto simp: wq)
  then have "map (\<lambda>q. (tid, last_wq (workqueues m q) - 1)) rest =
        map (\<lambda>q. (tid, last_wq (workqueues s q) - 1)) rest"
    by simp
  moreover have "(if q \<in> set rest then (workqueues m q)\<lparr>last_wq := last_wq (workqueues m q) - 1\<rparr>
           else workqueues m q) =
          (if q \<in> set (j # rest) then (workqueues s q)\<lparr>last_wq := last_wq (workqueues s q) - 1\<rparr>
           else workqueues s q)" for q
    using same [of q] nin by (cases "q = j") (simp_all add: wq)
  ultimately show ?thesis using sw by (simp add: swept_def ca co)
qed

lemma inner_sweep:
  assumes "pc (locals s tid) = Inner_cond" and "0 \<le> i_l (locals s tid)"
    and "\<forall>q. i_l (locals s tid) \<le> q \<and> q < cnt \<and> q \<noteq> tid \<longrightarrow> lock_wq (workqueues s q) = 0"
  shows "\<exists>k. swept s tid (steal_continue (locals s tid))
               (filter (has_work s) (peers_from (i_l (locals s tid)) cnt tid)) (solo cnt tid k s)"
  using assms
proof (induction "nat (cnt - i_l (locals s tid))" arbitrary: s rule: less_induct)
  case less
  let ?j = "i_l (locals s tid)"
  let ?sc = "steal_continue (locals s tid)"
  note pc = less.prems(1) and j0 = less.prems(2) and free = less.prems(3)
  show ?case
  proof (cases "?j < cnt")
    case False
    have "swept s tid ?sc [] (solo cnt tid 1 s)"
      unfolding swept_def using inner_cond_exit [OF pc False] by simp
    then show ?thesis using False by (auto simp add: peers_from_empty)
  next
    case lt: True
    have hw: "filter (has_work m) (peers_from (?j + 1) cnt tid) =
              filter (has_work s) (peers_from (?j + 1) cnt tid)"
      if "\<And>q. q \<noteq> ?j \<Longrightarrow> workqueues m q = workqueues s q" for m
    proof (rule filter_cong [OF refl])
      fix q assume "q \<in> set (peers_from (?j + 1) cnt tid)"
      then have "q \<noteq> ?j" using peers_from_mem [of q "?j + 1" cnt tid] j0 by auto
      then show "has_work m q = has_work s q" by (simp add: has_work_def that)
    qed
    have nxt: "\<exists>k. swept m tid (steal_continue (locals m tid))
                 (filter (has_work s) (peers_from (?j + 1) cnt tid)) (solo cnt tid k m)"
      if "pc (locals m tid) = Inner_cond" and "i_l (locals m tid) = ?j + 1"
        and "\<And>q. q \<noteq> ?j \<Longrightarrow> workqueues m q = workqueues s q" for m
    proof -
      have "nat (cnt - i_l (locals m tid)) < nat (cnt - ?j)" using that(2) lt by simp
      moreover have "0 \<le> i_l (locals m tid)" using that(2) j0 by simp
      moreover have "\<forall>q. i_l (locals m tid) \<le> q \<and> q < cnt \<and> q \<noteq> tid \<longrightarrow>
                       lock_wq (workqueues m q) = 0"
        using free that(2,3) by auto
      ultimately have "\<exists>k. swept m tid (steal_continue (locals m tid))
           (filter (has_work m) (peers_from (i_l (locals m tid)) cnt tid)) (solo cnt tid k m)"
        using that(1) by (intro less.hyps)
      then show ?thesis using hw [OF that(3)] by (simp add: that(2))
    qed
    show ?thesis
    proof (cases "?j = tid")
      case True
      define s2 where "s2 = solo cnt tid 2 s"
      note r = inner_cond_self [OF pc lt True, folded s2_def]
      from nxt [of s2] r obtain k where
        "swept s2 tid ?sc (filter (has_work s) (peers_from (?j + 1) cnt tid)) (solo cnt tid k s2)"
        by auto
      then have "swept s tid ?sc (filter (has_work s) (peers_from (?j + 1) cnt tid))
           (solo cnt tid k s2)"
        by (rule swept_skip) (simp_all add: r)
      moreover have "solo cnt tid k s2 = solo cnt tid (2 + k) s"
        by (simp only: solo_add s2_def)
      ultimately show ?thesis using True peers_from_step [OF j0 lt, of tid] by auto
    next
      case False
      define s1 where "s1 = solo cnt tid 1 s"
      note r = inner_cond_peer [OF pc lt False, folded s1_def]
      have lk: "lock_wq (workqueues s1 (i_l (locals s1 tid))) = 0"
        using free lt False by (simp add: r)
      show ?thesis
      proof (cases "has_work s ?j")
        case hw: True
        then have "has_work s1 (i_l (locals s1 tid))" by (simp add: has_work_def r)
        define s9 where "s9 = solo cnt tid 8 s1"
        note h = steal_hit_run [OF r(1) lk \<open>has_work s1 (i_l (locals s1 tid))\<close>, of cnt,
            folded s9_def]
        define s10 where "s10 = solo cnt tid 1 s9"
        note n = inner_next_run [OF h(9), of cnt, folded s10_def]
        have wq10: "workqueues s10 =
            (workqueues s)(?j := (workqueues s ?j)\<lparr>last_wq := last_wq (workqueues s ?j) - 1\<rparr>)"
          by (simp add: n h r)
        have "pc (locals s10 tid) = Inner_cond" "i_l (locals s10 tid) = ?j + 1"
          "\<And>q. q \<noteq> ?j \<Longrightarrow> workqueues s10 q = workqueues s q"
          by (simp_all add: n h r wq10)
        from nxt [OF this] obtain k where
          sw: "swept s10 tid 1 (filter (has_work s) (peers_from (?j + 1) cnt tid))
             (solo cnt tid k s10)"
          by (auto simp add: n h)
        have nin: "?j \<notin> set (filter (has_work s) (peers_from (?j + 1) cnt tid))"
          using peers_from_mem [of ?j "?j + 1" cnt tid] j0 by auto
        have "swept s tid ?sc (?j # filter (has_work s) (peers_from (?j + 1) cnt tid))
             (solo cnt tid k s10)"
          using sw wq10 _ _ nin
          by (rule swept_hit) (simp_all add: n h r)
        moreover have "solo cnt tid k s10 = solo cnt tid (1 + (8 + (1 + k))) s"
          by (simp only: solo_add s10_def s9_def s1_def)
        ultimately have "swept s tid ?sc (filter (has_work s) (peers_from ?j cnt tid))
             (solo cnt tid (1 + (8 + (1 + k))) s)"
          using hw False peers_from_step [OF j0 lt, of tid] by simp
        then show ?thesis by blast
      next
        case nw: False
        then have nw1: "\<not> has_work s1 (i_l (locals s1 tid))" by (simp add: has_work_def r)
        define s4 where "s4 = solo cnt tid 3 s1"
        note h = steal_miss_run [OF r(1) lk nw1, of cnt, folded s4_def]
        define s5 where "s5 = solo cnt tid 1 s4"
        note n = inner_next_run [OF h(5), of cnt, folded s5_def]
        have "pc (locals s5 tid) = Inner_cond" "i_l (locals s5 tid) = ?j + 1"
          "\<And>q. q \<noteq> ?j \<Longrightarrow> workqueues s5 q = workqueues s q"
          by (simp_all add: n h r)
        from nxt [OF this] obtain k where
          sw: "swept s5 tid ?sc (filter (has_work s) (peers_from (?j + 1) cnt tid))
             (solo cnt tid k s5)"
          by (auto simp add: n h r)
        have "swept s tid ?sc (filter (has_work s) (peers_from (?j + 1) cnt tid))
             (solo cnt tid k s5)"
          using sw by (rule swept_skip) (simp_all add: n h r)
        moreover have "solo cnt tid k s5 = solo cnt tid (1 + (3 + (1 + k))) s"
          by (simp only: solo_add s5_def s4_def s1_def)
        ultimately have "swept s tid ?sc (filter (has_work s) (peers_from ?j cnt tid))
             (solo cnt tid (1 + (3 + (1 + k))) s)"
          using nw False peers_from_step [OF j0 lt, of tid] by simp
        then show ?thesis by blast
      qed
    qed
  qed
qed

lemma steal_cond_run:
  assumes "pc (locals s tid) = Steal_cond"
  shows "workqueues (solo cnt tid 1 s) = workqueues s"
    and "calls (solo cnt tid 1 s) = calls s"
    and "contexts (solo cnt tid 1 s) = contexts s"
    and "steal_continue (locals s tid) = 0 \<Longrightarrow> pc (locals (solo cnt tid 1 s) tid) = Done"
    and "steal_continue (locals s tid) \<noteq> 0 \<Longrightarrow> pc (locals (solo cnt tid 1 s) tid) = Inner_cond"
    and "steal_continue (locals s tid) \<noteq> 0 \<Longrightarrow> i_l (locals (solo cnt tid 1 s) tid) = 0"
    and "steal_continue (locals s tid) \<noteq> 0 \<Longrightarrow> steal_continue (locals (solo cnt tid 1 s) tid) = 0"
  using assms by (simp_all add: solo_Suc worker_step_def Let_def goto_def)

lemma full_sweep:
  assumes pc: "pc (locals s tid) = Steal_cond" and sc: "steal_continue (locals s tid) \<noteq> 0"
    and free: "\<forall>q. 0 \<le> q \<and> q < cnt \<and> q \<noteq> tid \<longrightarrow> lock_wq (workqueues s q) = 0"
  shows "\<exists>k. swept s tid 0 (filter (has_work s) (peers_from 0 cnt tid)) (solo cnt tid k s)"
proof -
  define s1 where "s1 = solo cnt tid 1 s"
  note r = steal_cond_run(1-3) [OF pc, of cnt, folded s1_def]
    steal_cond_run(5-7) [OF pc sc, of cnt, folded s1_def]
  have "\<exists>k. swept s1 tid (steal_continue (locals s1 tid))
               (filter (has_work s1) (peers_from (i_l (locals s1 tid)) cnt tid)) (solo cnt tid k s1)"
    using free by (intro inner_sweep) (simp_all add: r)
  then obtain k where "swept s1 tid 0 (filter (has_work s) (peers_from 0 cnt tid)) (solo cnt tid k s1)"
    by (auto simp add: r has_work_def [abs_def])
  then have "swept s tid 0 (filter (has_work s) (peers_from 0 cnt tid)) (solo cnt tid k s1)"
    by (rule swept_skip) (simp_all add: r)
  moreover have "solo cnt tid k s1 = solo cnt tid (1 + k) s"
    by (simp only: solo_add s1_def)
  ultimately show ?thesis by auto
qed
lemma sum_list_less:
  fixes f g :: "'a \<Rightarrow> nat"
  assumes "\<forall>x \<in> set xs. f x \<le> g x" and "\<exists>x \<in> set xs. f x < g x"
  shows "sum_list (map f xs) < sum_list (map g xs)"
  using assms
proof (induction xs)
  case Nil
  then show ?case by simp
next
  case (Cons a xs)
  have le: "sum_list (map f xs) \<le> sum_list (map g xs)"
    using Cons.prems(1) by (intro sum_list_mono) simp
  show ?case
  proof (cases "f a < g a")
    case True
    with le show ?thesis by simp
  next
    case False
    with Cons.prems have "\<exists>x \<in> set xs. f x < g x" by auto
    with Cons have "sum_list (map f xs) < sum_list (map g xs)" by simp
    moreover have "f a \<le> g a" using Cons.prems(1) by simp
    ultimately show ?thesis by simp
  qed
qed

lemma swept_peer_work:
  assumes sw: "swept s tid sc (filter (has_work s) (peers_from 0 cnt tid)) s'"
    and ne: "filter (has_work s) (peers_from 0 cnt tid) \<noteq> []"
  shows "peer_work s' cnt tid < peer_work s cnt tid"
  unfolding peer_work_def
proof (rule sum_list_less)
  let ?rest = "filter (has_work s) (peers_from 0 cnt tid)"
  have wq: "workqueues s' q =
      (if q \<in> set ?rest then (workqueues s q)\<lparr>last_wq := last_wq (workqueues s q) - 1\<rparr>
       else workqueues s q)" for q
    using sw by (simp add: swept_def)
  show "\<forall>q \<in> set (peers_from 0 cnt tid).
          nat (last_wq (workqueues s' q) - next_wq (workqueues s' q))
          \<le> nat (last_wq (workqueues s q) - next_wq (workqueues s q))"
    by (auto simp add: wq)
  from ne obtain q where q: "q \<in> set ?rest" by (cases ?rest) auto
  then have "has_work s q" "q \<in> set (peers_from 0 cnt tid)" by simp_all
  then have "nat (last_wq (workqueues s' q) - next_wq (workqueues s' q))
          < nat (last_wq (workqueues s q) - next_wq (workqueues s q))"
    using q by (simp add: wq has_work_def)
  with \<open>q \<in> set (peers_from 0 cnt tid)\<close>
  show "\<exists>q \<in> set (peers_from 0 cnt tid).
          nat (last_wq (workqueues s' q) - next_wq (workqueues s' q))
          < nat (last_wq (workqueues s q) - next_wq (workqueues s q))"
    by blast
qed

lemma steal_phase_terminates:
  assumes "pc (locals s tid) = Steal_cond"
    and "\<forall>q. 0 \<le> q \<and> q < cnt \<and> q \<noteq> tid \<longrightarrow> lock_wq (workqueues s q) = 0"
  shows "\<exists>k. pc (locals (solo cnt tid k s) tid) = Done"
  using assms
proof (induction "peer_work s cnt tid" arbitrary: s rule: less_induct)
  case less
  note pc = less.prems(1) and free = less.prems(2)
  show ?case
  proof (cases "steal_continue (locals s tid) = 0")
    case True
    from steal_cond_run(4) [OF pc True, of cnt] show ?thesis by blast
  next
    case False
    let ?rest = "filter (has_work s) (peers_from 0 cnt tid)"
    from full_sweep [OF pc False free] obtain k where sw: "swept s tid 0 ?rest (solo cnt tid k s)"
      by blast
    define s' where "s' = solo cnt tid k s"
    note sw' = sw [folded s'_def]
    have pc': "pc (locals s' tid) = Steal_cond" using sw' by (simp add: swept_def)
    show ?thesis
    proof (cases "?rest = []")
      case True
      then have "steal_continue (locals s' tid) = 0" using sw' by (simp add: swept_def)
      from steal_cond_run(4) [OF pc' this, of cnt]
      have "pc (locals (solo cnt tid (k + 1) s) tid) = Done"
        by (simp only: solo_add s'_def)
      then show ?thesis by blast
    next
      case ne: False
      have "peer_work s' cnt tid < peer_work s cnt tid"
        using sw' ne by (rule swept_peer_work)
      moreover have "\<forall>q. 0 \<le> q \<and> q < cnt \<and> q \<noteq> tid \<longrightarrow> lock_wq (workqueues s' q) = 0"
        using sw' free by (simp add: swept_def)
      ultimately have "\<exists>k'. pc (locals (solo cnt tid k' s') tid) = Done"
        using pc' by (intro less.hyps)
      then obtain k' where "pc (locals (solo cnt tid (k + k') s) tid) = Done"
        by (auto simp only: solo_add s'_def)
      then show ?thesis by blast
    qed
  qed
qed

section \<open>The kernel invoker\<close>

lemma enumerate_map_index:
  "map (\<lambda>(i, x). g i) (enumerate 0 xs) = map g [0..<length xs]"
proof -
  have "map (\<lambda>(i, x). g i) (enumerate n xs) = map g [n..<n + length xs]" for n
    by (induction xs arbitrary: n) (simp_all add: upt_rec)
  from this [of 0] show ?thesis by simp
qed


section \<open>The claims\<close>

text \<open>
  Claim C1 fails on the code when \<open>N < ThreadCount\<close>. \<open>common.num_thread\<close> is assigned
  from the compiled thread count on line 134, before the fallback on line 148 reduces the
  local \<open>num_thread\<close> to \<open>N\<close>; the stealing sweep \<open>for_range(common.num_thread)\<close> therefore
  visits the queues \<open>N, .., ThreadCount - 1\<close>, which \<open>_populate_workqueues\<close> never wrote.
  For \<open>N = 1\<close>, \<open>ThreadCount = 2\<close> and a stack that holds \<open>next = 5\<close>, \<open>last = 7\<close>,
  \<open>lock = 0\<close> in the cell of queue 1, the one worker drains index 0 and then steals the
  indices 6 and 5 from queue 1: three kernel calls instead of one, two of them outside
  \<open>[0, N)\<close>; the check after the join then ends the call in \<open>unreachable()\<close>.
\<close>

theorem fallback_steals_from_unbuilt_queue:
  "body 1 2 (const_wq 5 7 0) (const_ctx 0 0)
     (run_call 1 2 (const_wq 5 7 0) (const_ctx 0 0) (replicate 60 0)) (Inl Unreachable) \<and>
   workers (body_launch 1 2 (const_wq 5 7 0) (const_ctx 0 0)) = 1 \<and>
   calls (run_call 1 2 (const_wq 5 7 0) (const_ctx 0 0) (replicate 60 0)) =
     [(0, 0), (0, 6), (0, 5)]"
proof -
  have r: "running 1 2 (const_wq 5 7 0) (const_ctx 0 0)
     (run_call 1 2 (const_wq 5 7 0) (const_ctx 0 0) (replicate 60 0))"
    by (rule running_run_call) (simp add: body_launch_fallback)
  have j: "joined (workers (body_launch 1 2 (const_wq 5 7 0) (const_ctx 0 0)))
     (run_call 1 2 (const_wq 5 7 0) (const_ctx 0 0) (replicate 60 0))"
    by code_simp
  have k: "race_check 2 (contexts (run_call 1 2 (const_wq 5 7 0) (const_ctx 0 0) (replicate 60 0))) 1
           = Inl Unreachable"
    by code_simp
  have c: "calls (run_call 1 2 (const_wq 5 7 0) (const_ctx 0 0) (replicate 60 0)) =
     [(0, 0), (0, 6), (0, 5)]"
    by code_simp
  show ?thesis using r j k c by (simp add: body_def body_launch_fallback)
qed

text \<open>
  Claim C2 fails on the code in the fallback case. The check sums \<open>completed\<close> over
  \<open>range(ThreadCount)\<close>, the compiled thread count, but \<open>_populate_context\<close> initialised
  only the \<open>num_thread = N\<close> contexts of the workers it launched. For \<open>N = 1\<close>,
  \<open>ThreadCount = 2\<close> and a stack that holds \<open>completed = 1\<close> in the cell of context 1, the
  one worker processes index 0 exactly once and finds nothing to steal, yet the sum is
  \<open>1 + 1 = 2 \<noteq> N\<close> and the call ends in \<open>unreachable()\<close>.
\<close>

theorem fallback_check_reads_unbuilt_context:
  "body 1 2 (const_wq 0 0 0) (const_ctx 0 1)
     (run_call 1 2 (const_wq 0 0 0) (const_ctx 0 1) (replicate 40 0)) (Inl Unreachable) \<and>
   calls (run_call 1 2 (const_wq 0 0 0) (const_ctx 0 1) (replicate 40 0)) = [(0, 0)] \<and>
   completed (contexts (run_call 1 2 (const_wq 0 0 0) (const_ctx 0 1) (replicate 40 0)) 0) = 1 \<and>
   completed (contexts (run_call 1 2 (const_wq 0 0 0) (const_ctx 0 1) (replicate 40 0)) 1) = 1 \<and>
   total_completed 2 (contexts (run_call 1 2 (const_wq 0 0 0) (const_ctx 0 1) (replicate 40 0))) = 2"
proof -
  have r: "running 1 2 (const_wq 0 0 0) (const_ctx 0 1)
     (run_call 1 2 (const_wq 0 0 0) (const_ctx 0 1) (replicate 40 0))"
    by (rule running_run_call) (simp add: body_launch_fallback)
  have j: "joined (workers (body_launch 1 2 (const_wq 0 0 0) (const_ctx 0 1)))
     (run_call 1 2 (const_wq 0 0 0) (const_ctx 0 1) (replicate 40 0))"
    by code_simp
  have k: "race_check 2 (contexts (run_call 1 2 (const_wq 0 0 0) (const_ctx 0 1) (replicate 40 0))) 1
           = Inl Unreachable"
    by code_simp
  have c: "calls (run_call 1 2 (const_wq 0 0 0) (const_ctx 0 1) (replicate 40 0)) = [(0, 0)]"
    "completed (contexts (run_call 1 2 (const_wq 0 0 0) (const_ctx 0 1) (replicate 40 0)) 0) = 1"
    "completed (contexts (run_call 1 2 (const_wq 0 0 0) (const_ctx 0 1) (replicate 40 0)) 1) = 1"
    "total_completed 2 (contexts (run_call 1 2 (const_wq 0 0 0) (const_ctx 0 1) (replicate 40 0))) = 2"
    by code_simp+
  show ?thesis using r j k c by (simp add: body_def)
qed

text \<open>
  Claim C4 fails on the code. For \<open>N = 0\<close> (here with \<open>ThreadCount = 4\<close>) the fallback sets
  the number of workers to 0 and no thread is created, but \<open>_populate_workqueues\<close> still
  executes \<open>workqueues[num_thread - ONE].last.assign(N)\<close> with \<open>num_thread = 0\<close>: it writes
  the \<open>last\<close> field of the cell before the array, index \<open>-1\<close> (here from 7 to 0). The
  check after the join then sums the \<open>completed\<close> fields of all four contexts, none of
  which was initialised (here 3 each, total 12), and the call ends in \<open>unreachable()\<close>
  instead of returning.
\<close>

theorem no_elements_writes_outside_the_array:
  "workers (body_launch 0 4 (const_wq 5 7 1) (const_ctx 9 3)) = 0 \<and>
   dispatch_worker (workers (body_launch 0 4 (const_wq 5 7 1) (const_ctx 9 3))) = [] \<and>
   last_wq (const_wq 5 7 1 (- 1)) = 7 \<and>
   last_wq (workqueues (begin_sys (body_launch 0 4 (const_wq 5 7 1) (const_ctx 9 3))) (- 1)) = 0 \<and>
   total_completed 4 (contexts (begin_sys (body_launch 0 4 (const_wq 5 7 1) (const_ctx 9 3)))) = 12 \<and>
   body 0 4 (const_wq 5 7 1) (const_ctx 9 3)
     (begin_sys (body_launch 0 4 (const_wq 5 7 1) (const_ctx 9 3))) (Inl Unreachable)"
proof -
  have l: "body_launch 0 4 (const_wq 5 7 1) (const_ctx 9 3) =
     \<lparr>common_num_thread = 4, workers = 0,
      begin_sys = \<lparr>workqueues = populate_workqueues (const_wq 5 7 1) 0 1 0,
                   contexts = populate_context (const_ctx 9 3) 0, locals = (\<lambda>_. local0),
                   calls = [], holder = (\<lambda>_. None)\<rparr>\<rparr>"
    by (rule body_launch_fallback) simp_all
  have t: "total_completed 4 (populate_context (const_ctx 9 3) 0) = 12"
    by (simp add: total_completed_def populate_context_def for_range_0 const_ctx_def upt_rec)
  show ?thesis
    unfolding body_def running_def Let_def l
    by (simp add: t dispatch_worker_eq populate_workqueues_apply const_wq_def joined_def
        race_check_def reachable.start)
qed

text \<open>
  Claim C5. For \<open>1 \<le> T \<le> N\<close> the dispatcher launches \<open>T\<close> workers with
  \<open>chunk = N div T\<close>; queue \<open>i\<close> is \<open>[i * chunk, (i + 1) * chunk)\<close>, unlocked, except that
  the \<open>last\<close> field of queue \<open>T - 1\<close> is \<open>N\<close>, so the last queue holds \<open>chunk + N mod T\<close>
  elements: the whole remainder. For \<open>N = 10\<close>, \<open>T = 3\<close> the ranges are
  \<open>[0,3)\<close>, \<open>[3,6)\<close>, \<open>[6,10)\<close>.
\<close>

theorem chunk_partition:
  assumes "1 \<le> T" and "T \<le> N"
  shows "workers (body_launch N T w c) = T \<and>
     (\<forall>i. 0 \<le> i \<and> i < T \<longrightarrow>
        workqueues (begin_sys (body_launch N T w c)) i =
          (w i)\<lparr>next_wq := i * (N div T),
                last_wq := (if i = T - 1 then N else (i + 1) * (N div T)),
                lock_wq := 0\<rparr>) \<and>
     N - (T - 1) * (N div T) = N div T + N mod T \<and>
     map (\<lambda>i. (next_wq (workqueues (begin_sys (body_launch 10 3 w c)) i),
                last_wq (workqueues (begin_sys (body_launch 10 3 w c)) i))) [0, 1, 2] =
       [(0, 3), (3, 6), (6, 10)]"
proof -
  have "N - (T - 1) * (N div T) = N div T + N mod T"
    using mult_div_mod_eq [of T N] by (simp add: algebra_simps)
  then show ?thesis using assms
    by (simp add: body_launch_even populate_workqueues_apply)
qed

theorem chunk_partition_witness:
  "(1::int) \<le> 3 \<and> (3::int) \<le> 10 \<and>
   workers (body_launch 10 3 (const_wq 8 8 8) (const_ctx 8 8)) = 3 \<and>
   workqueues (begin_sys (body_launch 10 3 (const_wq 8 8 8) (const_ctx 8 8))) 0 =
     \<lparr>next_wq = 0, last_wq = 3, lock_wq = 0\<rparr> \<and>
   workqueues (begin_sys (body_launch 10 3 (const_wq 8 8 8) (const_ctx 8 8))) 1 =
     \<lparr>next_wq = 3, last_wq = 6, lock_wq = 0\<rparr> \<and>
   workqueues (begin_sys (body_launch 10 3 (const_wq 8 8 8) (const_ctx 8 8))) 2 =
     \<lparr>next_wq = 6, last_wq = 10, lock_wq = 0\<rparr>"
proof -
  have h: "(1::int) \<le> 3" "(3::int) \<le> 10" by simp_all
  from chunk_partition [OF h, of "const_wq 8 8 8" "const_ctx 8 8"]
  have "\<forall>i. 0 \<le> i \<and> i < 3 \<longrightarrow>
        workqueues (begin_sys (body_launch 10 3 (const_wq 8 8 8) (const_ctx 8 8))) i =
          (const_wq 8 8 8 i)\<lparr>next_wq := i * (10 div 3),
                last_wq := (if i = 3 - 1 then 10 else (i + 1) * (10 div 3)),
                lock_wq := 0\<rparr>"
    and w: "workers (body_launch 10 3 (const_wq 8 8 8) (const_ctx 8 8)) = 3"
    by blast+
  from this(1) [rule_format, of 0] this(1) [rule_format, of 1] this(1) [rule_format, of 2] w
  show ?thesis by (simp add: const_wq_def)
qed

text \<open>
  Claim C6. For \<open>1 \<le> N < T\<close> the chunk size becomes 1 and the number of workers \<open>N\<close>:
  \<open>pthread_create\<close> is called for the contexts \<open>0, .., N - 1\<close> and for no other, queue
  \<open>i < N\<close> is \<open>[i, i + 1)\<close>, and a thread \<open>N \<le> i < T\<close> never runs: its locals never change.
  For \<open>N = 2\<close>, \<open>T = 4\<close>: two workers, with the ranges \<open>[0,1)\<close> and \<open>[1,2)\<close>.
\<close>

theorem fallback_one_element_queues:
  assumes "1 \<le> N" and "N < T"
  shows "chunk_plan N T = (1, N) \<and>
     workers (body_launch N T w c) = N \<and>
     dispatch_worker (workers (body_launch N T w c)) = map int [0..<nat N] \<and>
     int (length (dispatch_worker (workers (body_launch N T w c)))) = N \<and>
     (\<forall>i. 0 \<le> i \<and> i < N \<longrightarrow>
        workqueues (begin_sys (body_launch N T w c)) i =
          (w i)\<lparr>next_wq := i, last_wq := i + 1, lock_wq := 0\<rparr>) \<and>
     (\<forall>i. N \<le> i \<and> i < T \<longrightarrow>
        i \<notin> set (dispatch_worker (workers (body_launch N T w c))) \<and>
        (\<forall>s. running N T w c s \<longrightarrow> locals s i = local0))"
proof -
  have N: "0 \<le> N" using assms by simp
  have "locals s i = local0"
    if "N \<le> i" and "running N T w c s" for i s
    using reachable_unspawned [of T N "begin_sys (body_launch N T w c)" s i] that
    by (simp add: running_def body_launch_fallback [OF N assms(2)])
  then show ?thesis
    using assms
    by (auto simp add: body_launch_fallback [OF N assms(2)] chunk_plan_fallback
        populate_workqueues_apply dispatch_worker_eq)
qed

theorem fallback_one_element_queues_witness:
  "(1::int) \<le> 2 \<and> (2::int) < 4 \<and>
   workers (body_launch 2 4 (const_wq 8 8 8) (const_ctx 8 8)) = 2 \<and>
   dispatch_worker (workers (body_launch 2 4 (const_wq 8 8 8) (const_ctx 8 8))) = [0, 1] \<and>
   workqueues (begin_sys (body_launch 2 4 (const_wq 8 8 8) (const_ctx 8 8))) 0 =
     \<lparr>next_wq = 0, last_wq = 1, lock_wq = 0\<rparr> \<and>
   workqueues (begin_sys (body_launch 2 4 (const_wq 8 8 8) (const_ctx 8 8))) 1 =
     \<lparr>next_wq = 1, last_wq = 2, lock_wq = 0\<rparr> \<and>
   2 \<notin> set (dispatch_worker (workers (body_launch 2 4 (const_wq 8 8 8) (const_ctx 8 8)))) \<and>
   3 \<notin> set (dispatch_worker (workers (body_launch 2 4 (const_wq 8 8 8) (const_ctx 8 8))))"
proof -
  have h: "(1::int) \<le> 2" "(2::int) < 4" by simp_all
  note f = fallback_one_element_queues [OF h, of "const_wq 8 8 8" "const_ctx 8 8"]
  from f have q: "\<forall>i. 0 \<le> i \<and> i < 2 \<longrightarrow>
        workqueues (begin_sys (body_launch 2 4 (const_wq 8 8 8) (const_ctx 8 8))) i =
          (const_wq 8 8 8 i)\<lparr>next_wq := i, last_wq := i + 1, lock_wq := 0\<rparr>"
    by blast
  from f have u: "\<forall>i. 2 \<le> i \<and> i < 4 \<longrightarrow>
        i \<notin> set (dispatch_worker (workers (body_launch 2 4 (const_wq 8 8 8) (const_ctx 8 8))))"
    by blast
  from f have w: "workers (body_launch 2 4 (const_wq 8 8 8) (const_ctx 8 8)) = 2"
    and d: "dispatch_worker (workers (body_launch 2 4 (const_wq 8 8 8) (const_ctx 8 8))) =
            map int [0..<nat 2]"
    by blast+
  have "map int [0..<nat 2] = [0, 1]" by (simp add: upt_rec)
  with q [rule_format, of 0] q [rule_format, of 1] u [rule_format, of 2] u [rule_format, of 3] w d
  show ?thesis by (simp add: const_wq_def)
qed

text \<open>
  Claim C8. \<open>Unlock\<close> is a compare-and-exchange from locked (1) to unlocked (0): on a
  locked queue it stores 0 and returns; on any other lock value it stores nothing and
  executes \<open>unreachable()\<close>, the statement that "shall kill the program". A worker that
  releases a queue whose lock is not 1 is dead afterwards: the queues are unchanged and
  the worker takes no further step. (The memory ordering of the exchange is not part of
  the model.)
\<close>

theorem Unlock_release_or_fatal:
  "(lock_wq q = 1 \<longrightarrow> Unlock q = Inr (q\<lparr>lock_wq := 0\<rparr>)) \<and>
   (lock_wq q \<noteq> 1 \<longrightarrow> Unlock q = Inl Unreachable) \<and>
   (lock_wq (workqueues s qi) \<noteq> 1 \<longrightarrow>
      pc (locals (sys_Unlock tid qi after s) tid) = Dead \<and>
      workqueues (sys_Unlock tid qi after s) = workqueues s \<and>
      worker_step cnt tid (sys_Unlock tid qi after s) = None)"
  by (simp add: Unlock_eq sys_Unlock_eq worker_step_def Let_def)

theorem Unlock_release_or_fatal_witness:
  "Unlock \<lparr>next_wq = 0, last_wq = 1, lock_wq = 1\<rparr> = Inr \<lparr>next_wq = 0, last_wq = 1, lock_wq = 0\<rparr> \<and>
   Unlock \<lparr>next_wq = 0, last_wq = 1, lock_wq = 0\<rparr> = Inl Unreachable \<and>
   pc (locals (sys_Unlock 0 0 Drain_test (begin_sys (body_launch 1 1 (const_wq 0 0 0) (const_ctx 0 0)))) 0) = Dead \<and>
   worker_step 1 0 (sys_Unlock 0 0 Drain_test (begin_sys (body_launch 1 1 (const_wq 0 0 0) (const_ctx 0 0)))) = None"
proof -
  have l: "lock_wq (workqueues (begin_sys (body_launch 1 1 (const_wq 0 0 0) (const_ctx 0 0))) 0) \<noteq> 1"
    by (simp add: body_launch_even populate_workqueues_apply)
  show ?thesis
    using Unlock_release_or_fatal [of "\<lparr>next_wq = 0, last_wq = 1, lock_wq = 1\<rparr>"]
      Unlock_release_or_fatal [of "\<lparr>next_wq = 0, last_wq = 1, lock_wq = 0\<rparr>"
        "begin_sys (body_launch 1 1 (const_wq 0 0 0) (const_ctx 0 0))" 0 0 Drain_test 1] l
    by simp
qed

text \<open>
  Claim C9. For a claimed index \<open>i\<close>, \<open>_do_work\<close> reads input argument \<open>k\<close> at the address
  \<open>args[k] + i * steps[k]\<close>, for \<open>k = 0, .., n - 1\<close> in argument order (\<open>n\<close> the number of
  kernel arguments), calls the kernel on the values read, and stores the result at
  \<open>args[n] + i * steps[n]\<close>, the entries that follow the inputs. The strides enter the
  address as they are: nothing is checked, and a stride of zero reads the same element
  for every index. The address arithmetic is that of the machine word.
\<close>

theorem do_work_addressing:
  "do_work args steps ufunc ARGTYS i mem =
     mem(args (length ARGTYS) + i * steps (length ARGTYS) :=
           ufunc (map (\<lambda>k. mem (args k + i * steps k)) [0..<length ARGTYS]))"
  by (simp add: do_work_def Let_def get_offset_def
        enumerate_map_index [where g = "\<lambda>k. mem (args k + i * steps k)"])

text \<open>
  Claim C3, amended. In every state the workers of a call can reach (\<open>0 \<le> N\<close>,
  \<open>1 \<le> ThreadCount\<close>, any interleaving), every queue \<open>q\<close> that was built satisfies
  \<open>0 \<le> next \<le> last + 1\<close> and \<open>0 \<le> last \<le> N\<close>. A step of any worker leaves \<open>next\<close> as it
  is or adds one to it, and leaves \<open>last\<close> as it is or takes one from it; \<open>next\<close> changes
  only in the owner's \<open>workqueue.next += 1\<close> of the drain loop, \<open>last\<close> only in
  \<open>otherqueue.last -= ONE\<close> of another worker that steals, and in both cases the writer
  holds the queue's lock, which is 1.
\<close>

theorem queue_bounds_and_lock_discipline:
  assumes "0 \<le> N" and "1 \<le> T" and "running N T w c s"
    and "0 \<le> q" and "q < workers (body_launch N T w c)"
  shows "0 \<le> next_wq (workqueues s q) \<and>
     next_wq (workqueues s q) \<le> last_wq (workqueues s q) + 1 \<and>
     0 \<le> last_wq (workqueues s q) \<and>
     last_wq (workqueues s q) \<le> N \<and>
     (\<forall>tid s'. worker_step (common_num_thread (body_launch N T w c)) tid s = Some s' \<longrightarrow>
        next_wq (workqueues s q) \<le> next_wq (workqueues s' q) \<and>
        last_wq (workqueues s' q) \<le> last_wq (workqueues s q) \<and>
        (next_wq (workqueues s' q) \<noteq> next_wq (workqueues s q) \<longrightarrow>
           tid = q \<and> pc (locals s tid) = Drain_incr \<and>
           next_wq (workqueues s' q) = next_wq (workqueues s q) + 1 \<and>
           holder s q = Some tid \<and> lock_wq (workqueues s q) = 1) \<and>
        (last_wq (workqueues s' q) \<noteq> last_wq (workqueues s q) \<longrightarrow>
           tid \<noteq> q \<and> pc (locals s tid) = Steal_decr \<and> i_l (locals s tid) = q \<and>
           last_wq (workqueues s' q) = last_wq (workqueues s q) - 1 \<and>
           holder s q = Some tid \<and> lock_wq (workqueues s q) = 1))"
proof -
  note qi = running_queue_inv [OF assms(3,1,2,4,5)]
  note li = running_lock_inv [OF assms(3)]
  note b = built_queue_bounds [OF assms(1,2,4,5)]
  have bounds: "0 \<le> next_wq (workqueues s q)"
    "next_wq (workqueues s q) \<le> last_wq (workqueues s q) + 1"
    "0 \<le> last_wq (workqueues s q)" "last_wq (workqueues s q) \<le> N"
    using queue_invD(1-4) [OF qi] b by simp_all
  have steps: "next_wq (workqueues s q) \<le> next_wq (workqueues s' q) \<and>
        last_wq (workqueues s' q) \<le> last_wq (workqueues s q) \<and>
        (next_wq (workqueues s' q) \<noteq> next_wq (workqueues s q) \<longrightarrow>
           tid = q \<and> pc (locals s tid) = Drain_incr \<and>
           next_wq (workqueues s' q) = next_wq (workqueues s q) + 1 \<and>
           holder s q = Some tid \<and> lock_wq (workqueues s q) = 1) \<and>
        (last_wq (workqueues s' q) \<noteq> last_wq (workqueues s q) \<longrightarrow>
           tid \<noteq> q \<and> pc (locals s tid) = Steal_decr \<and> i_l (locals s tid) = q \<and>
           last_wq (workqueues s' q) = last_wq (workqueues s q) - 1 \<and>
           holder s q = Some tid \<and> lock_wq (workqueues s q) = 1)"
    if st: "worker_step (common_num_thread (body_launch N T w c)) tid s = Some s'" for tid s'
  proof -
    note nx = worker_step_next [OF st, of q] and la = worker_step_last [OF st, of q]
    have incr: "holder s q = Some tid \<and> lock_wq (workqueues s q) = 1"
      if "pc (locals s tid) = Drain_incr" "q = tid"
    proof -
      from that have "in_cs (locals s tid) tid q" by (simp add: in_cs_def)
      from lock_inv_locked [OF li this] show ?thesis by simp
    qed
    have decr: "holder s q = Some tid \<and> lock_wq (workqueues s q) = 1 \<and> tid \<noteq> q"
      if "pc (locals s tid) = Steal_decr" "q = i_l (locals s tid)"
    proof -
      from that have "in_cs (locals s tid) tid q" by (simp add: in_cs_def)
      from lock_inv_locked [OF li this] have h: "holder s q = Some tid \<and> lock_wq (workqueues s q) = 1"
        by simp
      have "thief_ok (locals s tid) (next_wq (workqueues s q)) (last_wq (workqueues s q))"
        by (rule queue_invD(6) [OF qi]) (simp add: that(2))
      then have lt: "next_wq (workqueues s q) < last_wq (workqueues s q)"
        by (simp add: thief_ok_def that(1))
      have "tid \<noteq> q"
      proof
        assume e: "tid = q"
        have "pc (locals s q) = Steal_decr" using that(1) unfolding e .
        with queue_invD(5) [OF qi] have "last_wq (workqueues s q) < next_wq (workqueues s q)"
          by (simp add: owner_ok_def)
        with lt show False by simp
      qed
      with h show ?thesis by simp
    qed
    show ?thesis using incr decr by (simp add: nx la)
  qed
  from bounds steps show ?thesis by blast
qed

theorem queue_bounds_and_lock_discipline_witness:
  "(0::int) \<le> 2 \<and> (1::int) \<le> 2 \<and>
   running 2 2 (const_wq 0 0 0) (const_ctx 0 0)
     (run_call 2 2 (const_wq 0 0 0) (const_ctx 0 0) (replicate 19 1)) \<and>
   (0::int) \<le> 0 \<and> 0 < workers (body_launch 2 2 (const_wq 0 0 0) (const_ctx 0 0)) \<and>
   worker_step (common_num_thread (body_launch 2 2 (const_wq 0 0 0) (const_ctx 0 0))) 1
     (run_call 2 2 (const_wq 0 0 0) (const_ctx 0 0) (replicate 19 1)) =
     Some (run_call 2 2 (const_wq 0 0 0) (const_ctx 0 0) (replicate 19 1 @ [1])) \<and>
   last_wq (workqueues (run_call 2 2 (const_wq 0 0 0) (const_ctx 0 0) (replicate 19 1)) 0) = 1 \<and>
   last_wq (workqueues (run_call 2 2 (const_wq 0 0 0) (const_ctx 0 0) (replicate 19 1 @ [1])) 0) = 0 \<and>
   pc (locals (run_call 2 2 (const_wq 0 0 0) (const_ctx 0 0) (replicate 19 1)) 1) = Steal_decr \<and>
   holder (run_call 2 2 (const_wq 0 0 0) (const_ctx 0 0) (replicate 19 1)) 0 = Some 1 \<and>
   lock_wq (workqueues (run_call 2 2 (const_wq 0 0 0) (const_ctx 0 0) (replicate 19 1)) 0) = 1"
proof -
  let ?s = "run_call 2 2 (const_wq 0 0 0) (const_ctx 0 0) (replicate 19 1)"
  let ?s' = "run_call 2 2 (const_wq 0 0 0) (const_ctx 0 0) (replicate 19 1 @ [1])"
  have h: "(0::int) \<le> 2" "(1::int) \<le> 2" "(0::int) \<le> 0" by simp_all
  have w: "0 < workers (body_launch 2 2 (const_wq 0 0 0) (const_ctx 0 0))"
    by (simp add: body_launch_even)
  have r: "running 2 2 (const_wq 0 0 0) (const_ctx 0 0) ?s"
    by (rule running_run_call) (simp add: body_launch_even)
  have p: "pc (locals ?s 1) = Steal_decr" by code_simp
  have st: "worker_step (common_num_thread (body_launch 2 2 (const_wq 0 0 0) (const_ctx 0 0))) 1 ?s
            = Some ?s'"
    by (rule run_call_snoc) (simp_all add: p)
  have l: "last_wq (workqueues ?s 0) = 1" "last_wq (workqueues ?s' 0) = 0" by code_simp+
  from queue_bounds_and_lock_discipline [OF h(1,2) r h(3) w]
  have "last_wq (workqueues ?s' 0) \<noteq> last_wq (workqueues ?s 0) \<longrightarrow>
         holder ?s 0 = Some 1 \<and> lock_wq (workqueues ?s 0) = 1"
    using st by blast
  with l h w r st p show ?thesis by simp
qed

text \<open>
  Claim C3 as stated is false: \<open>next \<le> last\<close> does not hold at all times. With one
  element and one worker, the worker's second turn of the drain loop finds the queue
  empty and still executes \<open>workqueue.next += 1\<close>: after eleven steps \<open>next = 2\<close> and
  \<open>last = 1\<close>.
\<close>

theorem next_exceeds_last_counterexample:
  "running 1 1 (const_wq 0 0 0) (const_ctx 0 0)
     (run_call 1 1 (const_wq 0 0 0) (const_ctx 0 0) (replicate 11 0)) \<and>
   0 < workers (body_launch 1 1 (const_wq 0 0 0) (const_ctx 0 0)) \<and>
   \<not> next_wq (workqueues (run_call 1 1 (const_wq 0 0 0) (const_ctx 0 0) (replicate 11 0)) 0)
        \<le> last_wq (workqueues (run_call 1 1 (const_wq 0 0 0) (const_ctx 0 0) (replicate 11 0)) 0)"
proof -
  have r: "running 1 1 (const_wq 0 0 0) (const_ctx 0 0)
     (run_call 1 1 (const_wq 0 0 0) (const_ctx 0 0) (replicate 11 0))"
    by (rule running_run_call) (simp add: body_launch_even)
  have n: "next_wq (workqueues (run_call 1 1 (const_wq 0 0 0) (const_ctx 0 0) (replicate 11 0)) 0) = 2"
    and l: "last_wq (workqueues (run_call 1 1 (const_wq 0 0 0) (const_ctx 0 0) (replicate 11 0)) 0) = 1"
    by code_simp+
  show ?thesis using r by (simp add: n l body_launch_even)
qed

text \<open>
  Claim C10. In every reachable state of a call, a step of a worker that calls the kernel
  (\<open>_do_work\<close>, the step that extends \<open>calls\<close>) or that increments a \<open>completed\<close> counter is
  taken while the worker holds no queue lock: the lock it took has been released. A step
  taken while the worker holds the lock of a queue \<open>q\<close> finds that lock at 1 and changes
  neither \<open>calls\<close> nor any context nor any other queue: under a lock a worker reads and
  writes only the fields of that queue and its own local variables.
\<close>

theorem no_kernel_call_under_lock:
  assumes "running N T w c s"
    and "worker_step (common_num_thread (body_launch N T w c)) tid s = Some s'"
  shows "(calls s' \<noteq> calls s \<longrightarrow>
            (\<forall>q. holder s q \<noteq> Some tid) \<and> calls s' = calls s @ [(tid, item_l (locals s tid))]) \<and>
         (contexts s' \<noteq> contexts s \<longrightarrow> (\<forall>q. holder s q \<noteq> Some tid)) \<and>
         (\<forall>q. holder s q = Some tid \<longrightarrow>
            lock_wq (workqueues s q) = 1 \<and>
            calls s' = calls s \<and> contexts s' = contexts s \<and>
            (\<forall>q'. q' \<noteq> q \<longrightarrow> workqueues s' q' = workqueues s q') \<and>
            (\<forall>t. t \<noteq> tid \<longrightarrow> locals s' t = locals s t))"
proof -
  note li = running_lock_inv [OF assms(1)]
  have free: "holder s q \<noteq> Some tid" if "\<And>q. \<not> in_cs (locals s tid) tid q" for q
    using lock_invD(1) [OF li, of q tid] that by simp
  have held: "q = q' \<and> lock_wq (workqueues s q) = 1"
    if "in_cs (locals s tid) tid q'" "holder s q = Some tid" for q q'
  proof -
    from that(2) have "in_cs (locals s tid) tid q" using lock_invD(1) [OF li, of q tid] by simp
    with that(1) have "q = q'" by (auto simp: in_cs_def)
    with lock_inv_locked(1) [OF li that(1)] show ?thesis by simp
  qed
  from assms(2) show ?thesis
  proof (cases rule: worker_step_cases)
    case (Lock q' after)
    from Lock(2) have "\<not> in_cs (locals s tid) tid q" for q
      by (elim disjE conjE) (simp_all add: in_cs_def)
    from free [OF this] show ?thesis by (simp add: Lock(1) sys_Lock_eq)
  next
    case (Unlock q' after)
    from Unlock(2) have "in_cs (locals s tid) tid q'"
      by (elim disjE conjE) (simp_all add: in_cs_def)
    from held [OF this] lock_inv_locked(1) [OF li this] show ?thesis
      by (auto simp add: Unlock(1) sys_Unlock_eq)
  next
    case Incr
    then have "in_cs (locals s tid) tid tid" by (simp add: in_cs_def)
    from held [OF this] show ?thesis by (auto simp add: Incr(2))
  next
    case Decr
    then have "in_cs (locals s tid) tid (i_l (locals s tid))" by (simp add: in_cs_def)
    from held [OF this] show ?thesis by (auto simp add: Decr(2))
  next
    case (Work after)
    from Work(1) have "\<not> in_cs (locals s tid) tid q" for q
      by (elim disjE conjE) (simp_all add: in_cs_def)
    from free [OF this] show ?thesis by (simp add: Work(2))
  next
    case (Count after)
    from Count(1) have "\<not> in_cs (locals s tid) tid q" for q
      by (elim disjE conjE) (simp_all add: in_cs_def)
    from free [OF this] show ?thesis by (simp add: Count(2))
  next
    case (Local l')
    have "lock_wq (workqueues s q) = 1" if "holder s q = Some tid" for q
      using lock_invD(2) [OF li that] .
    then show ?thesis by (simp add: Local(1))
  qed
qed

theorem no_kernel_call_under_lock_witness:
  "running 1 1 (const_wq 0 0 0) (const_ctx 0 0)
     (run_call 1 1 (const_wq 0 0 0) (const_ctx 0 0) (replicate 6 0)) \<and>
   worker_step (common_num_thread (body_launch 1 1 (const_wq 0 0 0) (const_ctx 0 0))) 0
     (run_call 1 1 (const_wq 0 0 0) (const_ctx 0 0) (replicate 6 0)) =
     Some (run_call 1 1 (const_wq 0 0 0) (const_ctx 0 0) (replicate 6 0 @ [0])) \<and>
   calls (run_call 1 1 (const_wq 0 0 0) (const_ctx 0 0) (replicate 6 0)) = [] \<and>
   calls (run_call 1 1 (const_wq 0 0 0) (const_ctx 0 0) (replicate 6 0 @ [0])) = [(0, 0)] \<and>
   (\<forall>q. holder (run_call 1 1 (const_wq 0 0 0) (const_ctx 0 0) (replicate 6 0)) q \<noteq> Some 0) \<and>
   running 1 1 (const_wq 0 0 0) (const_ctx 0 0)
     (run_call 1 1 (const_wq 0 0 0) (const_ctx 0 0) (replicate 2 0)) \<and>
   worker_step (common_num_thread (body_launch 1 1 (const_wq 0 0 0) (const_ctx 0 0))) 0
     (run_call 1 1 (const_wq 0 0 0) (const_ctx 0 0) (replicate 2 0)) =
     Some (run_call 1 1 (const_wq 0 0 0) (const_ctx 0 0) (replicate 2 0 @ [0])) \<and>
   holder (run_call 1 1 (const_wq 0 0 0) (const_ctx 0 0) (replicate 2 0)) 0 = Some 0 \<and>
   calls (run_call 1 1 (const_wq 0 0 0) (const_ctx 0 0) (replicate 2 0 @ [0])) =
     calls (run_call 1 1 (const_wq 0 0 0) (const_ctx 0 0) (replicate 2 0))"
proof -
  let ?a = "run_call 1 1 (const_wq 0 0 0) (const_ctx 0 0) (replicate 6 0)"
  let ?a' = "run_call 1 1 (const_wq 0 0 0) (const_ctx 0 0) (replicate 6 0 @ [0])"
  let ?b = "run_call 1 1 (const_wq 0 0 0) (const_ctx 0 0) (replicate 2 0)"
  let ?b' = "run_call 1 1 (const_wq 0 0 0) (const_ctx 0 0) (replicate 2 0 @ [0])"
  have ra: "running 1 1 (const_wq 0 0 0) (const_ctx 0 0) ?a"
    and rb: "running 1 1 (const_wq 0 0 0) (const_ctx 0 0) ?b"
    by (rule running_run_call, simp add: body_launch_even)+
  have pa: "pc (locals ?a 0) = Drain_work" and pb: "pc (locals ?b 0) = Drain_incr"
    by code_simp+
  have sa: "worker_step (common_num_thread (body_launch 1 1 (const_wq 0 0 0) (const_ctx 0 0))) 0 ?a
            = Some ?a'"
    by (rule run_call_snoc) (simp_all add: pa)
  have sb: "worker_step (common_num_thread (body_launch 1 1 (const_wq 0 0 0) (const_ctx 0 0))) 0 ?b
            = Some ?b'"
    by (rule run_call_snoc) (simp_all add: pb)
  have ca: "calls ?a = []" "calls ?a' = [(0, 0)]" and hb: "holder ?b 0 = Some 0"
    by code_simp+
  from no_kernel_call_under_lock [OF ra sa] ca
  have 1: "\<forall>q. holder ?a q \<noteq> Some 0" by simp
  from no_kernel_call_under_lock [OF rb sb] hb
  have 2: "calls ?b' = calls ?b" by blast
  from ra rb sa sb ca hb 1 2 show ?thesis by simp
qed

text \<open>
  Claim C7, for a worker that runs its stealing phase without interference
  (\<open>solo cnt tid k s\<close> is the state after \<open>k\<close> of its steps). At \<open>otherqueue.Lock()\<close> on a
  free peer queue with \<open>next < last\<close>: the first step takes the lock; after five steps
  \<open>last\<close> is one less, the new \<open>last\<close> is the claimed item, the lock is released and the
  kernel has not been called yet; after eight steps the kernel has been called on that
  item, \<open>completed\<close> is one more and \<open>steal_continue\<close> is 1. With \<open>next \<ge> last\<close>: the lock is
  taken and released in three steps and nothing else changes. At the loop condition of
  \<open>_do_work_stealing\<close>, with the peers' locks free: if \<open>steal_continue\<close> is 0 the worker is
  done; otherwise it makes a full sweep, which claims the tail index of exactly the peers
  \<open>0 .. cnt - 1\<close> other than itself that have work, in ascending order, and the step after
  the sweep is \<open>Done\<close> exactly when the sweep made no call, else the start of another
  sweep; and the phase always ends in \<open>Done\<close>.
\<close>

theorem stealing_phase:
  "(pc (locals s tid) = Steal_lock \<and> lock_wq (workqueues s (i_l (locals s tid))) = 0 \<and>
    has_work s (i_l (locals s tid)) \<longrightarrow>
      lock_wq (workqueues (solo cnt tid 1 s) (i_l (locals s tid))) = 1 \<and>
      workqueues (solo cnt tid 5 s) = (workqueues s)(i_l (locals s tid) :=
        (workqueues s (i_l (locals s tid)))
          \<lparr>last_wq := last_wq (workqueues s (i_l (locals s tid))) - 1\<rparr>) \<and>
      item_l (locals (solo cnt tid 5 s) tid) = last_wq (workqueues s (i_l (locals s tid))) - 1 \<and>
      calls (solo cnt tid 5 s) = calls s \<and>
      workqueues (solo cnt tid 8 s) = workqueues (solo cnt tid 5 s) \<and>
      calls (solo cnt tid 8 s) =
        calls s @ [(tid, last_wq (workqueues s (i_l (locals s tid))) - 1)] \<and>
      completed (contexts (solo cnt tid 8 s) tid) = completed (contexts s tid) + 1 \<and>
      steal_continue (locals (solo cnt tid 8 s) tid) = 1 \<and>
      pc (locals (solo cnt tid 8 s) tid) = Inner_next) \<and>
   (pc (locals s tid) = Steal_lock \<and> lock_wq (workqueues s (i_l (locals s tid))) = 0 \<and>
    \<not> has_work s (i_l (locals s tid)) \<longrightarrow>
      lock_wq (workqueues (solo cnt tid 1 s) (i_l (locals s tid))) = 1 \<and>
      workqueues (solo cnt tid 3 s) = workqueues s \<and>
      calls (solo cnt tid 3 s) = calls s \<and>
      contexts (solo cnt tid 3 s) = contexts s \<and>
      steal_continue (locals (solo cnt tid 3 s) tid) = steal_continue (locals s tid) \<and>
      pc (locals (solo cnt tid 3 s) tid) = Inner_next) \<and>
   (pc (locals s tid) = Steal_cond \<and>
    (\<forall>q. 0 \<le> q \<and> q < cnt \<and> q \<noteq> tid \<longrightarrow> lock_wq (workqueues s q) = 0) \<longrightarrow>
      (steal_continue (locals s tid) = 0 \<longrightarrow> pc (locals (solo cnt tid 1 s) tid) = Done) \<and>
      (steal_continue (locals s tid) \<noteq> 0 \<longrightarrow>
         (\<exists>k. swept s tid 0 (filter (has_work s) (peers_from 0 cnt tid)) (solo cnt tid k s) \<and>
              (pc (locals (solo cnt tid (Suc k) s) tid) = Done \<longleftrightarrow>
                 calls (solo cnt tid k s) = calls s) \<and>
              (calls (solo cnt tid k s) \<noteq> calls s \<longrightarrow>
                 pc (locals (solo cnt tid (Suc k) s) tid) = Inner_cond))) \<and>
      (\<exists>k. pc (locals (solo cnt tid k s) tid) = Done))"
proof (intro conjI impI; (elim conjE)?)
  assume a: "pc (locals s tid) = Steal_lock" "lock_wq (workqueues s (i_l (locals s tid))) = 0"
    "has_work s (i_l (locals s tid))"
  note h = steal_hit_run [OF a, of cnt]
  show "lock_wq (workqueues (solo cnt tid 1 s) (i_l (locals s tid))) = 1" by (rule h)
  show "workqueues (solo cnt tid 5 s) = (workqueues s)(i_l (locals s tid) :=
        (workqueues s (i_l (locals s tid)))
          \<lparr>last_wq := last_wq (workqueues s (i_l (locals s tid))) - 1\<rparr>)" by (rule h)
  show "item_l (locals (solo cnt tid 5 s) tid) = last_wq (workqueues s (i_l (locals s tid))) - 1"
    by (rule h)
  show "calls (solo cnt tid 5 s) = calls s" by (rule h)
  show "workqueues (solo cnt tid 8 s) = workqueues (solo cnt tid 5 s)" by (rule h)
  show "calls (solo cnt tid 8 s) =
        calls s @ [(tid, last_wq (workqueues s (i_l (locals s tid))) - 1)]" by (rule h)
  show "completed (contexts (solo cnt tid 8 s) tid) = completed (contexts s tid) + 1"
    by (simp add: h)
  show "steal_continue (locals (solo cnt tid 8 s) tid) = 1" by (rule h)
  show "pc (locals (solo cnt tid 8 s) tid) = Inner_next" by (rule h)
next
  assume a: "pc (locals s tid) = Steal_lock" "lock_wq (workqueues s (i_l (locals s tid))) = 0"
    "\<not> has_work s (i_l (locals s tid))"
  note h = steal_miss_run [OF a, of cnt]
  show "lock_wq (workqueues (solo cnt tid 1 s) (i_l (locals s tid))) = 1" by (rule h)
  show "workqueues (solo cnt tid 3 s) = workqueues s" by (rule h)
  show "calls (solo cnt tid 3 s) = calls s" by (rule h)
  show "contexts (solo cnt tid 3 s) = contexts s" by (rule h)
  show "steal_continue (locals (solo cnt tid 3 s) tid) = steal_continue (locals s tid)" by (rule h)
  show "pc (locals (solo cnt tid 3 s) tid) = Inner_next" by (rule h)
next
  assume pc: "pc (locals s tid) = Steal_cond"
    and free: "\<forall>q. 0 \<le> q \<and> q < cnt \<and> q \<noteq> tid \<longrightarrow> lock_wq (workqueues s q) = 0"
  show "pc (locals (solo cnt tid 1 s) tid) = Done" if "steal_continue (locals s tid) = 0"
    using steal_cond_run(4) [OF pc that] .
  show "\<exists>k. pc (locals (solo cnt tid k s) tid) = Done"
    using pc free by (rule steal_phase_terminates)
  show "\<exists>k. swept s tid 0 (filter (has_work s) (peers_from 0 cnt tid)) (solo cnt tid k s) \<and>
              (pc (locals (solo cnt tid (Suc k) s) tid) = Done \<longleftrightarrow>
                 calls (solo cnt tid k s) = calls s) \<and>
              (calls (solo cnt tid k s) \<noteq> calls s \<longrightarrow>
                 pc (locals (solo cnt tid (Suc k) s) tid) = Inner_cond)"
    if sc: "steal_continue (locals s tid) \<noteq> 0"
  proof -
    let ?rest = "filter (has_work s) (peers_from 0 cnt tid)"
    from full_sweep [OF pc sc free] obtain k where sw: "swept s tid 0 ?rest (solo cnt tid k s)"
      by blast
    define s' where "s' = solo cnt tid k s"
    note sw' = sw [folded s'_def]
    have pc': "pc (locals s' tid) = Steal_cond" using sw' by (simp add: swept_def)
    have nxt: "solo cnt tid (Suc k) s = solo cnt tid 1 s'"
      using solo_add [of cnt tid k 1 s] by (simp add: s'_def)
    have ca: "calls s' = calls s \<longleftrightarrow> ?rest = []" using sw' by (simp add: swept_def)
    have "pc (locals (solo cnt tid 1 s') tid) = Done" if "?rest = []"
    proof -
      from that have "steal_continue (locals s' tid) = 0" using sw' by (simp add: swept_def)
      from steal_cond_run(4) [OF pc' this] show ?thesis .
    qed
    moreover have "pc (locals (solo cnt tid 1 s') tid) = Inner_cond" if "?rest \<noteq> []"
    proof -
      from that have "steal_continue (locals s' tid) \<noteq> 0" using sw' by (simp add: swept_def)
      from steal_cond_run(5) [OF pc' this] show ?thesis .
    qed
    ultimately have "(pc (locals (solo cnt tid 1 s') tid) = Done \<longleftrightarrow> calls s' = calls s) \<and>
        (calls s' \<noteq> calls s \<longrightarrow> pc (locals (solo cnt tid 1 s') tid) = Inner_cond)"
      unfolding ca by (cases "?rest = []") simp_all
    note fin = this [folded nxt, unfolded s'_def]
    show ?thesis
      by (rule exI [of _ k]) (use sw fin in simp)
  qed
qed

theorem stealing_phase_witness:
  "pc (locals (run_call 2 2 (const_wq 0 0 0) (const_ctx 0 0) (replicate 17 1)) 1) = Steal_lock \<and>
   i_l (locals (run_call 2 2 (const_wq 0 0 0) (const_ctx 0 0) (replicate 17 1)) 1) = 0 \<and>
   lock_wq (workqueues (run_call 2 2 (const_wq 0 0 0) (const_ctx 0 0) (replicate 17 1)) 0) = 0 \<and>
   has_work (run_call 2 2 (const_wq 0 0 0) (const_ctx 0 0) (replicate 17 1)) 0 \<and>
   calls (solo 2 1 8 (run_call 2 2 (const_wq 0 0 0) (const_ctx 0 0) (replicate 17 1))) =
     [(1, 1), (1, 0)] \<and>
   pc (locals (run_call 2 2 (const_wq 0 0 0) (const_ctx 0 0) (replicate 8 1 @ replicate 19 0)) 0)
     = Steal_lock \<and>
   i_l (locals (run_call 2 2 (const_wq 0 0 0) (const_ctx 0 0) (replicate 8 1 @ replicate 19 0)) 0)
     = 1 \<and>
   lock_wq (workqueues (run_call 2 2 (const_wq 0 0 0) (const_ctx 0 0)
     (replicate 8 1 @ replicate 19 0)) 1) = 0 \<and>
   \<not> has_work (run_call 2 2 (const_wq 0 0 0) (const_ctx 0 0) (replicate 8 1 @ replicate 19 0)) 1 \<and>
   calls (solo 2 0 3 (run_call 2 2 (const_wq 0 0 0) (const_ctx 0 0)
     (replicate 8 1 @ replicate 19 0))) = [(1, 1), (0, 0)] \<and>
   pc (locals (run_call 2 2 (const_wq 0 0 0) (const_ctx 0 0) (replicate 15 1)) 1) = Steal_cond \<and>
   steal_continue (locals (run_call 2 2 (const_wq 0 0 0) (const_ctx 0 0) (replicate 15 1)) 1) = 1 \<and>
   lock_wq (workqueues (run_call 2 2 (const_wq 0 0 0) (const_ctx 0 0) (replicate 15 1)) 0) = 0 \<and>
   (\<exists>k. pc (locals (solo 2 1 k
      (run_call 2 2 (const_wq 0 0 0) (const_ctx 0 0) (replicate 15 1))) 1) = Done) \<and>
   pc (locals (run_call 1 1 (const_wq 0 0 0) (const_ctx 0 0) (replicate 19 0)) 0) = Steal_cond \<and>
   steal_continue (locals (run_call 1 1 (const_wq 0 0 0) (const_ctx 0 0) (replicate 19 0)) 0) = 0 \<and>
   pc (locals (solo 1 0 1 (run_call 1 1 (const_wq 0 0 0) (const_ctx 0 0) (replicate 19 0))) 0)
     = Done"
proof -
  let ?a = "run_call 2 2 (const_wq 0 0 0) (const_ctx 0 0) (replicate 17 1)"
  let ?b = "run_call 2 2 (const_wq 0 0 0) (const_ctx 0 0) (replicate 8 1 @ replicate 19 0)"
  let ?c = "run_call 2 2 (const_wq 0 0 0) (const_ctx 0 0) (replicate 15 1)"
  let ?d = "run_call 1 1 (const_wq 0 0 0) (const_ctx 0 0) (replicate 19 0)"
  have a: "pc (locals ?a 1) = Steal_lock" "i_l (locals ?a 1) = 0"
    "lock_wq (workqueues ?a 0) = 0" "has_work ?a 0"
    "calls ?a = [(1, 1)]" "last_wq (workqueues ?a 0) = 1"
    by code_simp+
  have b: "pc (locals ?b 0) = Steal_lock" "i_l (locals ?b 0) = 1"
    "lock_wq (workqueues ?b 1) = 0" "\<not> has_work ?b 1" "calls ?b = [(1, 1), (0, 0)]"
    by code_simp+
  have c: "pc (locals ?c 1) = Steal_cond" "steal_continue (locals ?c 1) = 1"
    "lock_wq (workqueues ?c 0) = 0"
    by code_simp+
  have d: "pc (locals ?d 0) = Steal_cond" "steal_continue (locals ?d 0) = 0"
    by code_simp+
  have cfree: "\<forall>q. 0 \<le> q \<and> q < 2 \<and> q \<noteq> 1 \<longrightarrow> lock_wq (workqueues ?c q) = 0"
  proof (intro allI impI)
    fix q :: int assume "0 \<le> q \<and> q < 2 \<and> q \<noteq> 1"
    then have "q = 0" by presburger
    with c(3) show "lock_wq (workqueues ?c q) = 0" by simp
  qed
  have dfree: "\<forall>q. 0 \<le> q \<and> q < 1 \<and> q \<noteq> 0 \<longrightarrow> lock_wq (workqueues ?d q) = 0"
    by presburger
  from stealing_phase [of ?a 1 2] a
  have 1: "calls (solo 2 1 8 ?a) = [(1, 1), (1, 0)]" by simp
  from stealing_phase [of ?b 0 2] b
  have 2: "calls (solo 2 0 3 ?b) = [(1, 1), (0, 0)]" by simp
  from stealing_phase [of ?c 1 2] c(1) cfree
  have 3: "\<exists>k. pc (locals (solo 2 1 k ?c) 1) = Done" by blast
  from stealing_phase [of ?d 0 1] d dfree
  have 4: "pc (locals (solo 1 0 1 ?d) 0) = Done" by blast
  from a(1-4) b(1-4) c d 1 2 3 4 show ?thesis by blast
qed


end
